theory Spec2Isabelle
  imports Main "HOL-Library.Word" "HOL-Library.Sublist"
begin

unbundle bit_operations_syntax

section \<open>File watching of libnih (nih/file.c)\<close>

text \<open>
  A shallow embedding of \<^verbatim>\<open>nih/file.c\<close>: the registry of inotify watches
  (\<^verbatim>\<open>nih_file_add_watch\<close>, \<^verbatim>\<open>nih_file_remove_watch\<close>, \<^verbatim>\<open>nih_file_reader\<close>), the
  directory walker (\<^verbatim>\<open>nih_dir_walk\<close>), the directory tree watch (\<^verbatim>\<open>nih_dir_add_watch\<close>,
  \<^verbatim>\<open>nih_dir_add_file_watch\<close>, \<^verbatim>\<open>nih_dir_watcher\<close>) and the memory map helper
  (\<^verbatim>\<open>nih_file_map\<close>, \<^verbatim>\<open>nih_file_unmap\<close>).

  The C code works on global state (the list \<^verbatim>\<open>file_watches\<close>, the descriptor
  \<^verbatim>\<open>inotify_fd\<close>, the heap of watch structures, \<^verbatim>\<open>errno\<close>, the raised error) and calls
  the kernel and user callbacks. The embedding passes that state explicitly, records every
  externally visible action in a trace, and takes the answers of the kernel from an
  environment. A failed \<^verbatim>\<open>nih_assert\<close> aborts the program: functions that contain a
  reachable assertion return an option, \<open>None\<close> being the abort.
\<close>

subsection \<open>Constants of the system headers\<close>

type_synonym mask = "32 word"
type_synonym addr = nat

text \<open>The event bits of \<^verbatim>\<open><sys/inotify.h>\<close>.\<close>

definition IN_MODIFY :: mask where "IN_MODIFY = 0x00000002"
definition IN_MOVED_FROM :: mask where "IN_MOVED_FROM = 0x00000040"
definition IN_MOVED_TO :: mask where "IN_MOVED_TO = 0x00000080"
definition IN_CREATE :: mask where "IN_CREATE = 0x00000100"
definition IN_DELETE :: mask where "IN_DELETE = 0x00000200"
definition IN_MOVE_SELF :: mask where "IN_MOVE_SELF = 0x00000800"
definition IN_IGNORED :: mask where "IN_IGNORED = 0x00008000"
definition IN_MOVE :: mask where "IN_MOVE = IN_MOVED_FROM OR IN_MOVED_TO"

text \<open>\<^verbatim>\<open>#define DIR_EVENTS (IN_CREATE | IN_DELETE | IN_MODIFY | IN_MOVE | IN_MOVE_SELF)\<close>\<close>

definition DIR_EVENTS :: mask where
  "DIR_EVENTS = IN_CREATE OR IN_DELETE OR IN_MODIFY OR IN_MOVE OR IN_MOVE_SELF"

text \<open>File modes of \<^verbatim>\<open><sys/stat.h>\<close>, open flags of \<^verbatim>\<open><fcntl.h>\<close>, protections of
  \<^verbatim>\<open><sys/mman.h>\<close> and error numbers of \<^verbatim>\<open><errno.h>\<close>.\<close>

definition S_IFMT :: mask where "S_IFMT = 0xF000"
definition S_IFDIR :: mask where "S_IFDIR = 0x4000"
definition S_ISDIR :: "mask \<Rightarrow> bool" where "S_ISDIR m = (m AND S_IFMT = S_IFDIR)"

definition O_ACCMODE :: mask where "O_ACCMODE = 3"
definition O_RDONLY :: mask where "O_RDONLY = 0"
definition O_RDWR :: mask where "O_RDWR = 2"
definition PROT_READ :: mask where "PROT_READ = 1"
definition PROT_WRITE :: mask where "PROT_WRITE = 2"
definition MAP_SHARED :: mask where "MAP_SHARED = 1"

definition ENOMEM :: int where "ENOMEM = 12"
definition ENOTDIR :: int where "ENOTDIR = 20"

subsection \<open>Data model\<close>

text \<open>A watcher is a function pointer: \<^verbatim>\<open>nih_dir_watcher\<close> of this file, or a function
  of the caller, known by a number.\<close>

datatype watcher = Nih_dir_watcher | User_watcher nat

text \<open>
  \<^verbatim>\<open>NihFileWatch\<close>: the fields of the C structure, and the two facts that
  \<^verbatim>\<open>nih_alloc\<close> keeps for the block: its parent and whether its destructor is
  \<^verbatim>\<open>nih_file_remove_watch\<close> (as \<^verbatim>\<open>nih_file_add_watch\<close> sets it) or \<^verbatim>\<open>NULL\<close>.
  The list entry of the structure is the position of its address in \<open>file_watches\<close>.
\<close>

record NihFileWatch =
  fw_wd :: int
  fw_path :: string
  fw_events :: mask
  fw_watcher :: watcher
  fw_data :: addr
  fw_parent :: "addr option"
  fw_destructor :: bool

text \<open>
  \<^verbatim>\<open>NihDirWatch\<close>: a handler is a function of the caller (known by a number) or
  \<^verbatim>\<open>NULL\<close>; the filter is a predicate on paths or \<^verbatim>\<open>NULL\<close>. \<open>dw_children\<close> are the
  file watches allocated with this block as their \<^verbatim>\<open>nih_alloc\<close> parent.
\<close>

record NihDirWatch =
  dw_path :: string
  dw_subdirs :: bool
  dw_filter :: "(string \<Rightarrow> bool) option"
  dw_create_handler :: "nat option"
  dw_modify_handler :: "nat option"
  dw_delete_handler :: "nat option"
  dw_data :: addr
  dw_children :: "addr list"

text \<open>What the program does to the outside, in the order it does it.\<close>

datatype action =
    Sys_inotify_init
  | Io_reopen int
  | Sys_inotify_add_watch int string mask
  | Sys_inotify_rm_watch int int
  | Call_watcher watcher addr addr mask mask "string option"
  | Call_create_handler nat addr addr string
  | Call_modify_handler nat addr addr string
  | Call_delete_handler nat addr addr "string option"
  | Log_debug string
  | Log_warn string
  | Sys_open string mask
  | Sys_fstat int
  | Sys_mmap nat mask mask int
  | Sys_munmap addr nat
  | Sys_close int

text \<open>
  The file system as one walk sees it: what \<^verbatim>\<open>stat\<close> answers for a path (an error
  number, or the mode), and what \<^verbatim>\<open>opendir\<close> and \<^verbatim>\<open>readdir\<close> answer for it (an
  error number, or the names of its entries, each with the node under it).
\<close>

datatype fsnode = Fsnode (st_mode: "int + mask") (dirents: "int + (string \<times> fsnode) list")

text \<open>
  The answers of the kernel and of the allocator. A system call answers \<open>Inl e\<close> when it
  fails with \<^verbatim>\<open>errno\<close> \<open>e\<close>. \<open>sys_alloc n\<close> tells whether the \<open>n\<close>-th allocation of a
  watch structure succeeds.
\<close>

record env =
  sys_inotify_init :: "int + int"
  sys_inotify_add_watch :: "string \<Rightarrow> mask \<Rightarrow> int + int"
  sys_alloc :: "nat \<Rightarrow> bool"
  sys_fs :: "string \<Rightarrow> fsnode"
  sys_open :: "string \<Rightarrow> mask \<Rightarrow> int + int"
  sys_fstat :: "int \<Rightarrow> int + int"
  sys_mmap :: "nat \<Rightarrow> mask \<Rightarrow> int \<Rightarrow> int + addr"
  sys_munmap :: "addr \<Rightarrow> nat \<Rightarrow> int + unit"

text \<open>
  The state of the program: the static variables \<^verbatim>\<open>file_watches\<close> and \<^verbatim>\<open>inotify_fd\<close>,
  the allocated watch structures, the number of allocations made (the next address),
  \<^verbatim>\<open>errno\<close>, the raised and not yet handled \<^verbatim>\<open>NihError\<close> (its error number), the bytes
  waiting in the receive buffer of the \<^verbatim>\<open>NihIo\<close> of the inotify descriptor, and the trace.
\<close>

record state =
  file_watches :: "addr list"
  inotify_fd :: int
  fw_heap :: "addr \<rightharpoonup> NihFileWatch"
  dw_heap :: "addr \<rightharpoonup> NihDirWatch"
  allocs :: nat
  errno :: int
  raised :: "int option"
  recv_buf :: string
  trace :: "action list"

definition emit :: "action \<Rightarrow> state \<Rightarrow> state" where
  "emit a s = s\<lparr>trace := trace s @ [a]\<rparr>"

subsection \<open>Collaborators: errors, allocation, lists\<close>

text \<open>
  Modelled from the spec: \<^verbatim>\<open>nih_error_raise_system\<close> and \<^verbatim>\<open>nih_error_get\<close> of
  \<^verbatim>\<open>nih/error.c\<close> are missing. A SystemError carries the error code of the failed call;
  the raised error stays retrievable until it is fetched. Fetching with no error raised
  is an assertion failure.
\<close>

definition nih_error_raise_system :: "state \<Rightarrow> state" where
  "nih_error_raise_system s = s\<lparr>raised := Some (errno s)\<rparr>"

definition nih_error_get :: "state \<Rightarrow> (state \<times> int) option" where
  "nih_error_get s =
     (case raised s of None \<Rightarrow> None | Some e \<Rightarrow> Some (s\<lparr>raised := None\<rparr>, e))"

text \<open>
  Modelled from the spec: \<^verbatim>\<open>nih_new\<close>, \<^verbatim>\<open>nih_alloc_set_destructor\<close> and \<^verbatim>\<open>nih_free\<close>
  of \<^verbatim>\<open>nih/alloc.c\<close> are missing: hierarchical allocation where a child block is
  destroyed when its parent is, with a hook run before the block is destroyed.
  \<open>nih_new\<close> answers the new address, or \<open>None\<close> (\<^verbatim>\<open>NULL\<close>, errno \<^verbatim>\<open>ENOMEM\<close>).
\<close>

definition nih_new :: "env \<Rightarrow> state \<Rightarrow> state \<times> addr option" where
  "nih_new E s =
     (if sys_alloc E (allocs s) then (s\<lparr>allocs := Suc (allocs s)\<rparr>, Some (allocs s))
      else (s\<lparr>allocs := Suc (allocs s), errno := ENOMEM\<rparr>, None))"

definition add_child :: "addr option \<Rightarrow> addr \<Rightarrow> state \<Rightarrow> state" where
  "add_child parent a s =
     (case parent of None \<Rightarrow> s
      | Some p \<Rightarrow> (case dw_heap s p of None \<Rightarrow> s
          | Some D \<Rightarrow> s\<lparr>dw_heap := (dw_heap s)(p \<mapsto> D\<lparr>dw_children := dw_children D @ [a]\<rparr>)\<rparr>))"

definition del_child :: "addr option \<Rightarrow> addr \<Rightarrow> state \<Rightarrow> state" where
  "del_child parent a s =
     (case parent of None \<Rightarrow> s
      | Some p \<Rightarrow> (case dw_heap s p of None \<Rightarrow> s
          | Some D \<Rightarrow> s\<lparr>dw_heap := (dw_heap s)(p \<mapsto> D\<lparr>dw_children := removeAll a (dw_children D)\<rparr>)\<rparr>))"

definition nih_alloc_set_destructor :: "state \<Rightarrow> addr \<Rightarrow> bool \<Rightarrow> state" where
  "nih_alloc_set_destructor s w d =
     (case fw_heap s w of None \<Rightarrow> s
      | Some F \<Rightarrow> s\<lparr>fw_heap := (fw_heap s)(w \<mapsto> F\<lparr>fw_destructor := d\<rparr>)\<rparr>)"

text \<open>
  Modelled from the spec: \<^verbatim>\<open>nih_list_add\<close> and \<^verbatim>\<open>nih_list_remove\<close> of \<^verbatim>\<open>nih/list.c\<close>
  are missing. Registration appends the handle to the registry; an entry is in at most
  one place of one list, and removing it leaves the other entries in their order.
\<close>

definition nih_list_add :: "state \<Rightarrow> addr \<Rightarrow> state" where
  "nih_list_add s w = s\<lparr>file_watches := removeAll w (file_watches s) @ [w]\<rparr>"

definition nih_list_remove :: "state \<Rightarrow> addr \<Rightarrow> state" where
  "nih_list_remove s w = s\<lparr>file_watches := removeAll w (file_watches s)\<rparr>"

subsection \<open>The registry of watches\<close>

text \<open>
  \<^verbatim>\<open>nih_file_init\<close>: the list exists from the first call on (an empty list stands
  for both \<^verbatim>\<open>NULL\<close> and the empty list, since nothing walks the list before it is
  made); the inotify descriptor is opened while it is \<open>-1\<close>, and on success the reader
  is installed on it (\<^verbatim>\<open>NIH_MUST\<close> repeats \<^verbatim>\<open>nih_io_reopen\<close> until it succeeds).
\<close>

definition nih_file_init :: "env \<Rightarrow> state \<Rightarrow> state" where
  "nih_file_init E s =
     (if inotify_fd s = - 1 then
        (case sys_inotify_init E of
           Inl e \<Rightarrow> (emit Sys_inotify_init s)\<lparr>inotify_fd := - 1, errno := e\<rparr>
         | Inr fd \<Rightarrow>
             (let s1 = (emit Sys_inotify_init s)\<lparr>inotify_fd := fd\<rparr>
              in if fd < 0 then s1 else emit (Io_reopen fd) s1))
      else s)"

text \<open>
  \<^verbatim>\<open>nih_file_remove_watch\<close>. A pointer to no live structure is outside of what the C
  function can be given; the model leaves the state as it is there.
\<close>

definition nih_file_remove_watch :: "state \<Rightarrow> addr \<Rightarrow> state" where
  "nih_file_remove_watch s w =
     (case fw_heap s w of
        None \<Rightarrow> s
      | Some F \<Rightarrow>
          if fw_wd F < 0 then s
          else
            (let s1 = emit (Sys_inotify_rm_watch (inotify_fd s) (fw_wd F)) s;
                 s2 = s1\<lparr>fw_heap := (fw_heap s1)(w \<mapsto> F\<lparr>fw_wd := - 1\<rparr>)\<rparr>
             in nih_list_remove s2 w))"

text \<open>
  \<^verbatim>\<open>nih_free\<close> of a file watch: the destructor runs if one is set, then the block
  leaves its parent and the heap. \<^verbatim>\<open>nih_free\<close> of a directory watch: its children are
  freed (each with its destructor), then the block itself. \<^verbatim>\<open>nih_list_free\<close> unlinks an
  entry and frees it.
\<close>

definition nih_free_fw :: "state \<Rightarrow> addr \<Rightarrow> state" where
  "nih_free_fw s w =
     (case fw_heap s w of
        None \<Rightarrow> s
      | Some F \<Rightarrow>
          (let s1 = (if fw_destructor F then nih_file_remove_watch s w else s);
               s2 = del_child (fw_parent F) w s1
           in s2\<lparr>fw_heap := (fw_heap s2)(w := None)\<rparr>))"

definition nih_free_dw :: "state \<Rightarrow> addr \<Rightarrow> state" where
  "nih_free_dw s d =
     (case dw_heap s d of
        None \<Rightarrow> s
      | Some D \<Rightarrow>
          (let s1 = fold (\<lambda>c st. nih_free_fw st c) (dw_children D) s
           in s1\<lparr>dw_heap := (dw_heap s1)(d := None)\<rparr>))"

definition nih_list_free :: "state \<Rightarrow> addr \<Rightarrow> state" where
  "nih_list_free s w = nih_free_fw (nih_list_remove s w) w"

text \<open>
  \<^verbatim>\<open>nih_file_add_watch\<close>. The fields \<^verbatim>\<open>path\<close>, \<^verbatim>\<open>events\<close>, \<^verbatim>\<open>watcher\<close> and \<^verbatim>\<open>data\<close>
  are written after the kernel has answered; when it refuses, the block is freed before
  anything reads them, so the model writes them together with \<^verbatim>\<open>wd\<close>. The result is the
  new watch, or \<open>None\<close> for \<^verbatim>\<open>NULL\<close> with an error raised.
\<close>

definition nih_file_add_watch ::
  "env \<Rightarrow> state \<Rightarrow> addr option \<Rightarrow> string \<Rightarrow> mask \<Rightarrow> watcher \<Rightarrow> addr \<Rightarrow> (state \<times> addr option) option"
where
  "nih_file_add_watch E s parent path events watcher data =
     (if events = 0 then None
      else
        (let s1 = nih_file_init E s in
         if inotify_fd s1 < 0 then Some (nih_error_raise_system s1, None)
         else
           (case nih_new E s1 of
              (s2, None) \<Rightarrow> Some (nih_error_raise_system s2, None)
            | (s2, Some w) \<Rightarrow>
                (let s3 = add_child parent w s2;
                     s4 = emit (Sys_inotify_add_watch (inotify_fd s3) path events) s3;
                     r = (case sys_inotify_add_watch E path events of Inl e \<Rightarrow> - 1 | Inr d \<Rightarrow> d);
                     s5 = (case sys_inotify_add_watch E path events of
                             Inl e \<Rightarrow> s4\<lparr>errno := e\<rparr> | Inr d \<Rightarrow> s4);
                     s6 = s5\<lparr>fw_heap := (fw_heap s5)(w \<mapsto>
                            \<lparr>fw_wd = r, fw_path = path, fw_events = events,
                             fw_watcher = watcher, fw_data = data, fw_parent = parent,
                             fw_destructor = True\<rparr>)\<rparr>
                 in if r < 0 then Some (nih_free_fw (nih_error_raise_system s6) w, None)
                    else Some (nih_list_add s6 w, Some w)))))"

subsection \<open>The directory walker\<close>

text \<open>
  \<^verbatim>\<open>nih_dir_walk\<close>, over the node that the file system shows at \<open>path\<close>. The visitor
  is a function on the state that answers an \<^verbatim>\<open>int\<close>. \<open>walk_entries\<close> is the
  \<^verbatim>\<open>readdir\<close> loop; it carries the variable \<^verbatim>\<open>ret\<close>.
\<close>

type_synonym visitor = "state \<Rightarrow> string \<Rightarrow> (state \<times> int) option"

text \<open>\<^verbatim>\<open>nih_sprintf (NULL, "%s/%s", path, name)\<close>, and the test
  \<^verbatim>\<open>filter && filter (subpath)\<close>.\<close>

definition path_join :: "string \<Rightarrow> string \<Rightarrow> string" where
  "path_join path name = path @ ''/'' @ name"

definition filtered :: "(string \<Rightarrow> bool) option \<Rightarrow> string \<Rightarrow> bool" where
  "filtered filt subpath = (case filt of None \<Rightarrow> False | Some f \<Rightarrow> f subpath)"

fun nih_dir_walk ::
    "visitor \<Rightarrow> state \<Rightarrow> string \<Rightarrow> fsnode \<Rightarrow> mask \<Rightarrow> (string \<Rightarrow> bool) option \<Rightarrow> (state \<times> int) option"
  and walk_entries ::
    "visitor \<Rightarrow> state \<Rightarrow> string \<Rightarrow> (string \<times> fsnode) list \<Rightarrow> mask \<Rightarrow> (string \<Rightarrow> bool) option \<Rightarrow> int
       \<Rightarrow> (state \<times> int) option"
where
  "nih_dir_walk V s path (Fsnode st ds) types filt =
     (if types = 0 then None
      else
        (case ds of
           Inl e \<Rightarrow> Some (nih_error_raise_system (s\<lparr>errno := e\<rparr>), - 1)
         | Inr ents \<Rightarrow> walk_entries V s path ents types filt 0))"
| "walk_entries V s path [] types filt ret = Some (s, ret)"
| "walk_entries V s path ((name, child) # rest) types filt ret =
     (if name = ''.'' \<or> name = ''..'' then walk_entries V s path rest types filt ret
      else
        (let subpath = path_join path name in
         if filtered filt subpath
         then walk_entries V s path rest types filt ret
         else
           (case st_mode child of
              Inl e \<Rightarrow> walk_entries V (s\<lparr>errno := e\<rparr>) path rest types filt ret
            | Inr m \<Rightarrow>
                (case (if m AND types \<noteq> 0 then V s subpath else Some (s, ret)) of
                   None \<Rightarrow> None
                 | Some (s1, ret1) \<Rightarrow>
                     if ret1 < 0 then Some (s1, ret1)
                     else
                       (case (if S_ISDIR m then nih_dir_walk V s1 subpath child types filt
                              else Some (s1, ret1)) of
                          None \<Rightarrow> None
                        | Some (s2, ret2) \<Rightarrow>
                            if ret2 < 0 then Some (s2, ret2)
                            else walk_entries V s2 path rest types filt ret2)))))"

subsection \<open>The directory tree watch\<close>

text \<open>
  \<^verbatim>\<open>nih_dir_add_file_watch\<close>, the visitor of the walks: when the watch cannot be
  added, the raised error is fetched and a warning is logged.
\<close>

definition nih_dir_add_file_watch :: "env \<Rightarrow> addr \<Rightarrow> state \<Rightarrow> string \<Rightarrow> (state \<times> int) option" where
  "nih_dir_add_file_watch E watch s path =
     (case nih_file_add_watch E s (Some watch) path DIR_EVENTS Nih_dir_watcher watch of
        None \<Rightarrow> None
      | Some (s1, Some w) \<Rightarrow> Some (s1, 0)
      | Some (s1, None) \<Rightarrow>
          (case nih_error_get s1 of
             None \<Rightarrow> None
           | Some (s2, err) \<Rightarrow> Some (emit (Log_warn path) s2, 0)))"

text \<open>
  The loop of \<^verbatim>\<open>nih_dir_watcher\<close> that looks for another entry of the list with the
  descriptor of \<^verbatim>\<open>file_watch\<close>. An entry of the list is a live structure (a watch is
  unlinked before it is freed); the model passes over an entry that is none.
\<close>

definition wd_found :: "state \<Rightarrow> addr \<Rightarrow> int \<Rightarrow> bool" where
  "wd_found s file_watch wd =
     fold (\<lambda>fw found.
            if fw \<noteq> file_watch \<and> (case fw_heap s fw of None \<Rightarrow> False | Some X \<Rightarrow> fw_wd X = wd)
            then True else found)
          (file_watches s) False"

text \<open>
  \<^verbatim>\<open>nih_dir_watcher\<close>. Its two pointers are live structures, or the call is outside of
  what C defines (\<open>None\<close>). A handler of the caller is seen in the trace only.
\<close>

definition nih_dir_watcher ::
  "env \<Rightarrow> state \<Rightarrow> addr \<Rightarrow> addr \<Rightarrow> mask \<Rightarrow> mask \<Rightarrow> string option \<Rightarrow> state option"
where
  "nih_dir_watcher E s dir_watch file_watch events cookie name =
     (case (dw_heap s dir_watch, fw_heap s file_watch) of
        (Some D, Some F) \<Rightarrow>
          if events = 0 then None
          else if events AND IN_IGNORED \<noteq> 0 \<or> events AND IN_MOVE_SELF \<noteq> 0 then
            (let s1 = emit (Log_debug (fw_path F)) s in
             if fw_path F = dw_path D then
               (let s2 = (case dw_delete_handler D of
                            None \<Rightarrow> s1
                          | Some h \<Rightarrow> emit (Call_delete_handler h (dw_data D) dir_watch None) s1)
                in Some (nih_free_dw s2 dir_watch))
             else if wd_found s1 file_watch (fw_wd F) then
               Some (nih_list_free (nih_alloc_set_destructor s1 file_watch False) file_watch)
             else
               Some (nih_free_fw (nih_file_remove_watch s1 file_watch) file_watch))
          else
            (case name of
               None \<Rightarrow> None
             | Some n \<Rightarrow>
                 (let path = path_join (fw_path F) n in
                  if filtered (dw_filter D) path then Some s
                  else if events AND IN_CREATE \<noteq> 0 \<or> events AND IN_MOVED_TO \<noteq> 0 then
                    (let s1 = (case dw_create_handler D of
                                 None \<Rightarrow> s
                               | Some h \<Rightarrow> emit (Call_create_handler h (dw_data D) dir_watch path) s)
                     in if dw_subdirs D
                           \<and> (case st_mode (sys_fs E path) of Inl e \<Rightarrow> False | Inr m \<Rightarrow> S_ISDIR m)
                        then
                          (case nih_dir_add_file_watch E dir_watch s1 path of
                             None \<Rightarrow> None
                           | Some (s2, r) \<Rightarrow>
                               (case nih_dir_walk (nih_dir_add_file_watch E dir_watch) s2 path
                                       (sys_fs E path) S_IFDIR (dw_filter D) of
                                  None \<Rightarrow> None
                                | Some (s3, ret) \<Rightarrow>
                                    if ret < 0 then
                                      (case nih_error_get s3 of
                                         None \<Rightarrow> None
                                       | Some (s4, err) \<Rightarrow> Some s4)
                                    else Some s3))
                        else Some s1)
                  else if events AND IN_MODIFY \<noteq> 0 then
                    Some (case dw_modify_handler D of
                            None \<Rightarrow> s
                          | Some h \<Rightarrow> emit (Call_modify_handler h (dw_data D) dir_watch path) s)
                  else if events AND IN_DELETE \<noteq> 0 \<or> events AND IN_MOVED_FROM \<noteq> 0 then
                    Some (case dw_delete_handler D of
                            None \<Rightarrow> s
                          | Some h \<Rightarrow> emit (Call_delete_handler h (dw_data D) dir_watch (Some path)) s)
                  else Some s))
      | _ \<Rightarrow> None)"

text \<open>
  \<^verbatim>\<open>nih_dir_add_watch\<close>. The result is the new directory watch, or \<open>None\<close> for
  \<^verbatim>\<open>NULL\<close> with an error raised.
\<close>

definition nih_dir_add_watch ::
  "env \<Rightarrow> state \<Rightarrow> string \<Rightarrow> bool \<Rightarrow> (string \<Rightarrow> bool) option \<Rightarrow> nat option \<Rightarrow> nat option \<Rightarrow> nat option
     \<Rightarrow> addr \<Rightarrow> (state \<times> addr option) option"
where
  "nih_dir_add_watch E s path subdirs filt create_handler modify_handler delete_handler data =
     (case st_mode (sys_fs E path) of
        Inl e \<Rightarrow> Some (nih_error_raise_system (s\<lparr>errno := e\<rparr>), None)
      | Inr m \<Rightarrow>
          if \<not> S_ISDIR m then Some (nih_error_raise_system (s\<lparr>errno := ENOTDIR\<rparr>), None)
          else
            (case nih_new E s of
               (s1, None) \<Rightarrow> Some (nih_error_raise_system s1, None)
             | (s1, Some watch) \<Rightarrow>
                 (let s2 = s1\<lparr>dw_heap := (dw_heap s1)(watch \<mapsto>
                              \<lparr>dw_path = path, dw_subdirs = subdirs, dw_filter = filt,
                               dw_create_handler = create_handler,
                               dw_modify_handler = modify_handler,
                               dw_delete_handler = delete_handler,
                               dw_data = data, dw_children = []\<rparr>)\<rparr>
                  in case nih_file_add_watch E s2 (Some watch) path DIR_EVENTS Nih_dir_watcher watch of
                       None \<Rightarrow> None
                     | Some (s3, None) \<Rightarrow> Some (nih_free_dw s3 watch, None)
                     | Some (s3, Some w) \<Rightarrow>
                         if subdirs then
                           (case nih_dir_walk (nih_dir_add_file_watch E watch) s3 path
                                   (sys_fs E path) S_IFDIR filt of
                              None \<Rightarrow> None
                            | Some (s4, ret) \<Rightarrow>
                                if ret < 0 then Some (nih_free_dw s4 watch, None)
                                else Some (s4, Some watch))
                         else Some (s3, Some watch))))"

subsection \<open>The reader of the inotify descriptor\<close>

text \<open>
  \<^verbatim>\<open>struct inotify_event\<close> is \<^verbatim>\<open>int wd; uint32_t mask, cookie, len; char name[]\<close>:
  sixteen bytes and then \<^verbatim>\<open>len\<close> bytes of name. The fields are read in the byte order
  of the host, here the little-endian one.
\<close>

definition sizeof_inotify_event :: nat where
  "sizeof_inotify_event = 16"

definition le32 :: "string \<Rightarrow> 32 word" where
  "le32 bs = foldr (\<lambda>c w. of_char c + 256 * w) (take 4 bs) 0"

definition event_wd :: "string \<Rightarrow> int" where
  "event_wd bs = sint (le32 bs)"

definition event_mask :: "string \<Rightarrow> mask" where
  "event_mask bs = le32 (drop 4 bs)"

definition event_cookie :: "string \<Rightarrow> mask" where
  "event_cookie bs = le32 (drop 8 bs)"

definition event_len :: "string \<Rightarrow> 32 word" where
  "event_len bs = le32 (drop 12 bs)"

text \<open>\<^verbatim>\<open>event->len ? event->name : NULL\<close>, the name read as a C string.\<close>

definition event_name :: "string \<Rightarrow> string option" where
  "event_name bs =
     (if event_len bs \<noteq> 0 then Some (takeWhile (\<lambda>c. c \<noteq> CHR 0x00) (drop 16 bs)) else None)"

text \<open>
  Modelled from the spec: \<^verbatim>\<open>nih_io_read\<close> of \<^verbatim>\<open>nih/io.c\<close> is missing: the buffered
  read takes up to \<open>sz\<close> bytes from the front of the receive buffer, answers them with
  their number, and leaves the rest buffered. \<^verbatim>\<open>NIH_MUST\<close> repeats the call until its
  allocation succeeds.
\<close>

definition nih_io_read :: "state \<Rightarrow> nat \<Rightarrow> state \<times> string \<times> nat" where
  "nih_io_read s sz =
     (let n = min sz (length (recv_buf s))
      in (s\<lparr>recv_buf := drop n (recv_buf s)\<rparr>, take n (recv_buf s), n))"

text \<open>
  The call of a watcher. A watcher of the caller is seen in the trace only;
  \<^verbatim>\<open>nih_dir_watcher\<close> runs with the \<^verbatim>\<open>data\<close> of the watch as its directory watch.
\<close>

definition call_watcher :: "env \<Rightarrow> state \<Rightarrow> addr \<Rightarrow> NihFileWatch \<Rightarrow> string \<Rightarrow> state option" where
  "call_watcher E s watch W event =
     (let s1 = emit (Call_watcher (fw_watcher W) (fw_data W) watch (event_mask event)
                       (event_cookie event) (event_name event)) s
      in case fw_watcher W of
           User_watcher n \<Rightarrow> Some s1
         | Nih_dir_watcher \<Rightarrow>
             nih_dir_watcher E s1 (fw_data W) watch (event_mask event) (event_cookie event)
               (event_name event))"

text \<open>
  The \<^verbatim>\<open>NIH_LIST_FOREACH\<close> loop of \<^verbatim>\<open>nih_file_reader\<close> over the entries that are
  left to look at. An entry of the list is a live structure; the model passes over an
  entry that is none.
\<close>

fun dispatch :: "env \<Rightarrow> state \<Rightarrow> addr list \<Rightarrow> string \<Rightarrow> state option" where
  "dispatch E s [] event = Some s"
| "dispatch E s (watch # rest) event =
     (case fw_heap s watch of
        None \<Rightarrow> dispatch E s rest event
      | Some W \<Rightarrow>
          if fw_wd W \<noteq> event_wd event then dispatch E s rest event
          else call_watcher E s watch W event)"

text \<open>
  The \<^verbatim>\<open>while (len > 0)\<close> loop of \<^verbatim>\<open>nih_file_reader\<close>. \<^verbatim>\<open>buf\<close> points to the front
  of the receive buffer of \<^verbatim>\<open>io\<close>, so it shows the bytes that are waiting at each
  turn; \<^verbatim>\<open>sz\<close> is a \<^verbatim>\<open>size_t\<close> of 64 bits. When \<^verbatim>\<open>len\<close> is more than the buffer
  holds the C loop need not end, so the loop is a partial function: \<open>None\<close> is an
  abort in a watcher or a loop without end.
\<close>

partial_function (option) reader_loop :: "env \<Rightarrow> state \<Rightarrow> nat \<Rightarrow> state option" where
  "reader_loop E s len =
     (if 0 < len then
        (if len < sizeof_inotify_event then Some s
         else
           (let sz = (sizeof_inotify_event + unat (event_len (recv_buf s))) mod 2 ^ 64 in
            if len < sz then Some s
            else
              (case nih_io_read s sz of
                 (s1, event, sz') \<Rightarrow>
                   Option.bind (dispatch E s1 (file_watches s1) event)
                     (\<lambda>s2. reader_loop E s2 (len - sz')))))
      else Some s)"

definition nih_file_reader :: "env \<Rightarrow> state \<Rightarrow> nat \<Rightarrow> state option" where
  "nih_file_reader E s len = (if len = 0 then None else reader_loop E s len)"

subsection \<open>Mapping a file into memory\<close>

definition sys_ret :: "int + int \<Rightarrow> int" where
  "sys_ret r = (case r of Inl e \<Rightarrow> - 1 | Inr v \<Rightarrow> v)"

definition sys_errno :: "int + 'a \<Rightarrow> state \<Rightarrow> state" where
  "sys_errno r s = (case r of Inl e \<Rightarrow> s\<lparr>errno := e\<rparr> | Inr v \<Rightarrow> s)"

text \<open>The computation of \<^verbatim>\<open>prot\<close> in \<^verbatim>\<open>nih_file_map\<close>.\<close>

definition map_prot :: "mask \<Rightarrow> mask" where
  "map_prot flags =
     (if flags AND O_ACCMODE = O_RDWR then PROT_READ OR PROT_WRITE else PROT_READ)"

text \<open>The label \<^verbatim>\<open>error:\<close> of \<^verbatim>\<open>nih_file_map\<close>.\<close>

definition map_error :: "int \<Rightarrow> state \<Rightarrow> state" where
  "map_error fd s = emit (Sys_close fd) (nih_error_raise_system s)"

text \<open>
  \<^verbatim>\<open>nih_file_map\<close>. The result is the state, the pointer (\<open>None\<close> for \<^verbatim>\<open>NULL\<close>) and
  the value of \<^verbatim>\<open>*length\<close> on return. \<^verbatim>\<open>st_size\<close> is an \<^verbatim>\<open>off_t\<close>, stored into a
  \<^verbatim>\<open>size_t\<close> of 64 bits.
\<close>

definition nih_file_map ::
  "env \<Rightarrow> state \<Rightarrow> string \<Rightarrow> mask \<Rightarrow> nat \<Rightarrow> (state \<times> addr option \<times> nat) option"
where
  "nih_file_map E s path flags length0 =
     (if \<not> (flags AND O_ACCMODE = O_RDONLY \<or> flags AND O_ACCMODE = O_RDWR) then None
      else
        (let s1 = sys_errno (sys_open E path flags) (emit (Sys_open path flags) s);
             fd = sys_ret (sys_open E path flags)
         in if fd < 0 then Some (nih_error_raise_system s1, None, length0)
            else
              (let prot = map_prot flags;
                   s2 = emit (Sys_fstat fd) s1
               in case sys_fstat E fd of
                    Inl e \<Rightarrow> Some (map_error fd (s2\<lparr>errno := e\<rparr>), None, length0)
                  | Inr st_size \<Rightarrow>
                      (let length1 = nat (st_size mod 2 ^ 64);
                           s3 = emit (Sys_mmap length1 prot MAP_SHARED fd) s2
                       in case sys_mmap E length1 prot fd of
                            Inl e \<Rightarrow> Some (map_error fd (s3\<lparr>errno := e\<rparr>), None, length1)
                          | Inr m \<Rightarrow> Some (emit (Sys_close fd) s3, Some m, length1)))))"

definition nih_file_unmap :: "env \<Rightarrow> state \<Rightarrow> addr \<Rightarrow> nat \<Rightarrow> state \<times> int" where
  "nih_file_unmap E s m len =
     (let s1 = emit (Sys_munmap m len) s
      in case sys_munmap E m len of
           Inl e \<Rightarrow> (nih_error_raise_system (s1\<lparr>errno := e\<rparr>), - 1)
         | Inr u \<Rightarrow> (s1, 0))"

subsection \<open>Notions for the statements\<close>

text \<open>
  The calls of the program into the code of its user: the watchers and the handlers.
  \<open>calls\<close> is what the user has seen of a run.
\<close>

fun is_call :: "action \<Rightarrow> bool" where
  "is_call (Call_watcher f d w m c n) = True"
| "is_call (Call_create_handler h d w p) = True"
| "is_call (Call_modify_handler h d w p) = True"
| "is_call (Call_delete_handler h d w p) = True"
| "is_call a = False"

definition calls :: "state \<Rightarrow> action list" where
  "calls s = filter is_call (trace s)"

text \<open>
  A watch is live when it is allocated with a valid descriptor;
  freeing it releases it when, moreover, its destructor is set.
\<close>

definition live_wd :: "state \<Rightarrow> addr \<Rightarrow> bool" where
  "live_wd s w = (case fw_heap s w of None \<Rightarrow> False | Some F \<Rightarrow> 0 \<le> fw_wd F)"

definition releases :: "state \<Rightarrow> addr \<Rightarrow> bool" where
  "releases s w =
     (case fw_heap s w of None \<Rightarrow> False | Some F \<Rightarrow> fw_destructor F \<and> 0 \<le> fw_wd F)"

text \<open>
  Every directory of a tree can be opened: \<^verbatim>\<open>opendir\<close> succeeds on the node and on
  every directory below it.
\<close>

fun opens_all :: "fsnode \<Rightarrow> bool" where
  "opens_all (Fsnode st ds) =
     (case ds of
        Inl e \<Rightarrow> False
      | Inr ents \<Rightarrow>
          (\<forall>nc \<in> set ents.
             case st_mode (snd nc) of Inl e \<Rightarrow> True | Inr m \<Rightarrow> S_ISDIR m \<longrightarrow> opens_all (snd nc)))"

text \<open>
  The inotify descriptor is open, or \<^verbatim>\<open>inotify_init\<close> will open it.
\<close>

definition fd_ready :: "env \<Rightarrow> state \<Rightarrow> bool" where
  "fd_ready E s \<longleftrightarrow>
     0 \<le> inotify_fd s \<or> (inotify_fd s = - 1 \<and> (\<exists>fd. sys_inotify_init E = Inr fd \<and> 0 \<le> fd))"

text \<open>
  A watch \<open>w\<close> with the contents \<open>W\<close> stays registered, the descriptor stays \<open>fd\<close> and
  the action \<open>a\<close> stays in the trace.
\<close>

definition keeps :: "addr \<Rightarrow> NihFileWatch \<Rightarrow> int \<Rightarrow> action \<Rightarrow> state \<Rightarrow> bool" where
  "keeps w W fd a s \<longleftrightarrow>
     w < allocs s \<and> fw_heap s w = Some W \<and> w \<in> set (file_watches s)
     \<and> inotify_fd s = fd \<and> 0 \<le> fd \<and> a \<in> set (trace s)"

text \<open>The calls that the translator makes to the handlers, for each kind of event.\<close>

definition handler_call :: "nat option \<Rightarrow> (nat \<Rightarrow> action) \<Rightarrow> action list" where
  "handler_call handler f = (case handler of None \<Rightarrow> [] | Some h \<Rightarrow> [f h])"

definition handler_calls ::
  "NihDirWatch \<Rightarrow> addr \<Rightarrow> NihFileWatch \<Rightarrow> mask \<Rightarrow> string option \<Rightarrow> action list"
where
  "handler_calls D dw F events name =
     (if events AND IN_IGNORED \<noteq> 0 \<or> events AND IN_MOVE_SELF \<noteq> 0 then
        (if fw_path F = dw_path D then
           handler_call (dw_delete_handler D) (\<lambda>h. Call_delete_handler h (dw_data D) dw None)
         else [])
      else
        (case name of
           None \<Rightarrow> []
         | Some n \<Rightarrow>
             if filtered (dw_filter D) (path_join (fw_path F) n) then []
             else if events AND IN_CREATE \<noteq> 0 \<or> events AND IN_MOVED_TO \<noteq> 0 then
               handler_call (dw_create_handler D)
                 (\<lambda>h. Call_create_handler h (dw_data D) dw (path_join (fw_path F) n))
             else if events AND IN_MODIFY \<noteq> 0 then
               handler_call (dw_modify_handler D)
                 (\<lambda>h. Call_modify_handler h (dw_data D) dw (path_join (fw_path F) n))
             else if events AND IN_DELETE \<noteq> 0 \<or> events AND IN_MOVED_FROM \<noteq> 0 then
               handler_call (dw_delete_handler D)
                 (\<lambda>h. Call_delete_handler h (dw_data D) dw (Some (path_join (fw_path F) n)))
             else []))"

text \<open>The calls of watchers among the actions.\<close>

fun is_watcher_call :: "action \<Rightarrow> bool" where
  "is_watcher_call (Call_watcher f d w m c n) = True"
| "is_watcher_call a = False"

definition watcher_calls :: "state \<Rightarrow> action list" where
  "watcher_calls s = filter is_watcher_call (trace s)"

text \<open>The test of the loop of \<^verbatim>\<open>nih_file_reader\<close>: the watch is the one of the event.\<close>

definition wd_matches :: "state \<Rightarrow> string \<Rightarrow> addr \<Rightarrow> bool" where
  "wd_matches s event w =
     (case fw_heap s w of None \<Rightarrow> False | Some W \<Rightarrow> fw_wd W = event_wd event)"

text \<open>A filter that excludes the directory \<^verbatim>\<open>/r/d\<close> of the small world, and nothing else.\<close>

definition demo_filter :: "string \<Rightarrow> bool" where
  "demo_filter p \<longleftrightarrow> p = ''/r/d''"

text \<open>Freeing the children of a block, one after the other.\<close>

definition frees :: "addr list \<Rightarrow> state \<Rightarrow> state" where
  "frees cs s = fold (\<lambda>c st. nih_free_fw st c) cs s"

text \<open>
  A complete record is a header followed by as many bytes of name as the header
  declares; a buffer holds no event when it is shorter than a header, or than its header
  with the name that the header declares.
\<close>

definition record_complete :: "string \<Rightarrow> bool" where
  "record_complete r \<longleftrightarrow> length r = sizeof_inotify_event + unat (event_len r)"

definition no_event_in :: "string \<Rightarrow> bool" where
  "no_event_in b \<longleftrightarrow>
     length b < sizeof_inotify_event \<or> length b < sizeof_inotify_event + unat (event_len b)"

text \<open>Every watch of the registry belongs to a watcher of the caller.\<close>

definition users_only :: "state \<Rightarrow> bool" where
  "users_only s \<longleftrightarrow> (\<forall>w W. fw_heap s w = Some W \<longrightarrow> fw_watcher W \<noteq> Nih_dir_watcher)"

fun run_events :: "env \<Rightarrow> state \<Rightarrow> string list \<Rightarrow> state option" where
  "run_events E s [] = Some s"
| "run_events E s (r # rs) =
     (let s1 = s\<lparr>recv_buf := drop (length r) (recv_buf s)\<rparr>
      in Option.bind (dispatch E s1 (file_watches s1) r) (\<lambda>s2. run_events E s2 rs))"

text \<open>
  The kernel is asked to remove a watch: the removals among the actions.
\<close>

fun is_removal :: "action \<Rightarrow> bool" where
  "is_removal (Sys_inotify_rm_watch fd wd) = True"
| "is_removal a = False"

definition removals :: "state \<Rightarrow> action list" where
  "removals s = filter is_removal (trace s)"

text \<open>
  What a step from \<open>s\<close> to \<open>s'\<close> leaves as it was: every block of \<open>s\<close> is still
  allocated, every file watch of \<open>s\<close> has its contents, the watches of \<open>s\<close> are
  registered as before and in the same order, every directory watch of \<open>s\<close> has its
  fields and owns the children it owned (it may own new ones), the kernel has not been
  asked to remove any watch, and an open inotify descriptor is still the same.
\<close>

definition dw_kept :: "nat \<Rightarrow> NihDirWatch \<Rightarrow> NihDirWatch option \<Rightarrow> bool" where
  "dw_kept a D x \<longleftrightarrow>
     (case x of None \<Rightarrow> False
      | Some D' \<Rightarrow> D'\<lparr>dw_children := dw_children D\<rparr> = D
          \<and> filter (\<lambda>c. c < a) (dw_children D') = filter (\<lambda>c. c < a) (dw_children D))"

definition undisturbed :: "state \<Rightarrow> state \<Rightarrow> bool" where
  "undisturbed s s' \<longleftrightarrow>
     allocs s \<le> allocs s'
     \<and> (\<forall>w. w < allocs s \<longrightarrow> fw_heap s' w = fw_heap s w)
     \<and> filter (\<lambda>w. w < allocs s) (file_watches s') = filter (\<lambda>w. w < allocs s) (file_watches s)
     \<and> (\<forall>d D. d < allocs s \<and> dw_heap s d = Some D \<longrightarrow> dw_kept (allocs s) D (dw_heap s' d))
     \<and> prefix (trace s) (trace s') \<and> removals s' = removals s
     \<and> (0 \<le> inotify_fd s \<longrightarrow> inotify_fd s' = inotify_fd s)"

text \<open>What has been done between \<open>s\<close> and \<open>s'\<close>.\<close>

definition since :: "state \<Rightarrow> state \<Rightarrow> action list" where
  "since s s' = drop (length (trace s)) (trace s')"

text \<open>
  The kernel refuses to watch a path. An entry of a directory that the walk of a
  directory watch visits and that the kernel refuses to watch; every such entry of a
  node has had its warning since \<open>s\<close>.
\<close>

definition refused :: "env \<Rightarrow> string \<Rightarrow> bool" where
  "refused E p = (case sys_inotify_add_watch E p DIR_EVENTS of Inl e \<Rightarrow> True | Inr d \<Rightarrow> d < 0)"

definition refused_dir :: "env \<Rightarrow> (string \<Rightarrow> bool) option \<Rightarrow> string \<Rightarrow> string \<times> fsnode \<Rightarrow> bool" where
  "refused_dir E filt path nc \<longleftrightarrow>
     fst nc \<noteq> ''.'' \<and> fst nc \<noteq> ''..'' \<and> \<not> filtered filt (path_join path (fst nc))
     \<and> (case st_mode (snd nc) of Inl e \<Rightarrow> False | Inr m \<Rightarrow> S_ISDIR m)
     \<and> refused E (path_join path (fst nc))"

definition warned :: "env \<Rightarrow> (string \<Rightarrow> bool) option \<Rightarrow> string \<Rightarrow> fsnode \<Rightarrow> state \<Rightarrow> state \<Rightarrow> bool" where
  "warned E filt path node s s' \<longleftrightarrow>
     (case dirents node of
        Inl e \<Rightarrow> True
      | Inr ents \<Rightarrow>
          (\<forall>nc \<in> set ents. refused_dir E filt path nc
             \<longrightarrow> Log_warn (path_join path (fst nc)) \<in> set (since s s')))"

text \<open>
  A named event tells of a new directory below a directory watch that watches its
  sub-directories: \<^verbatim>\<open>nih_dir_watcher\<close> adds a watch and walks the new directory.
\<close>

definition discovers :: "env \<Rightarrow> NihDirWatch \<Rightarrow> NihFileWatch \<Rightarrow> mask \<Rightarrow> string \<Rightarrow> bool" where
  "discovers E D F events n \<longleftrightarrow>
     events AND IN_IGNORED = 0 \<and> events AND IN_MOVE_SELF = 0
     \<and> (events AND IN_CREATE \<noteq> 0 \<or> events AND IN_MOVED_TO \<noteq> 0)
     \<and> dw_subdirs D \<and> \<not> filtered (dw_filter D) (path_join (fw_path F) n)
     \<and> (case st_mode (sys_fs E (path_join (fw_path F) n)) of Inl e \<Rightarrow> False | Inr m \<Rightarrow> S_ISDIR m)"

subsection \<open>Concrete inputs\<close>

text \<open>
  The state of a program that has not used the file watches yet, and a small world:
  a directory \<^verbatim>\<open>/r\<close> with a file \<^verbatim>\<open>a.txt\<close> and a directory \<^verbatim>\<open>d\<close>, which holds a
  directory \<^verbatim>\<open>x\<close>. The kernel gives the descriptors 1, 2 and 4 to the three
  directories, opens any file as descriptor 5 with 7 bytes, and refuses to map it.
  The directory \<^verbatim>\<open>d\<close> is renamed to \<^verbatim>\<open>e\<close> later on: the paths \<^verbatim>\<open>/r/e\<close>
  and \<^verbatim>\<open>/r/e/x\<close> name the same directories, so the kernel answers with the same
  descriptors for them.
\<close>

definition ENOENT :: int where "ENOENT = 2"

definition init_state :: state where
  "init_state =
     \<lparr>file_watches = [], inotify_fd = - 1, fw_heap = Map.empty, dw_heap = Map.empty,
      allocs = 0, errno = 0, raised = None, recv_buf = [], trace = []\<rparr>"

definition demo_x :: fsnode where
  "demo_x = Fsnode (Inr S_IFDIR) (Inr [])"

definition demo_d :: fsnode where
  "demo_d = Fsnode (Inr S_IFDIR) (Inr [(''x'', demo_x)])"

definition demo_r :: fsnode where
  "demo_r = Fsnode (Inr S_IFDIR)
     (Inr [(''.'', Fsnode (Inr S_IFDIR) (Inr [])),
           (''a.txt'', Fsnode (Inr 0x8000) (Inl ENOTDIR)),
           (''d'', demo_d)])"

definition demo_env :: env where
  "demo_env =
     \<lparr>sys_inotify_init = Inr 3,
      sys_inotify_add_watch =
        (\<lambda>p m. if p = ''/r'' then Inr 1
                else if p = ''/r/d'' \<or> p = ''/r/e'' then Inr 2
                else if p = ''/r/d/x'' \<or> p = ''/r/e/x'' then Inr 4 else Inl ENOENT),
      sys_alloc = (\<lambda>n. True),
      sys_fs =
        (\<lambda>p. if p = ''/r'' then demo_r
              else if p = ''/r/d'' \<or> p = ''/r/e'' then demo_d
              else if p = ''/r/d/x'' \<or> p = ''/r/e/x'' then demo_x
              else Fsnode (Inl ENOENT) (Inl ENOENT)),
      sys_open = (\<lambda>p f. Inr 5),
      sys_fstat = (\<lambda>fd. Inr 7),
      sys_mmap = (\<lambda>n p fd. Inl ENOMEM),
      sys_munmap = (\<lambda>a n. Inr ())\<rparr>"

text \<open>A registry with one watch of a caller, on descriptor 1.\<close>

definition demo_watch :: NihFileWatch where
  "demo_watch =
     \<lparr>fw_wd = 1, fw_path = ''/r'', fw_events = IN_MODIFY, fw_watcher = User_watcher 0,
      fw_data = 0, fw_parent = None, fw_destructor = True\<rparr>"

definition demo_registry :: state where
  "demo_registry =
     init_state\<lparr>file_watches := [0], inotify_fd := 3, fw_heap := [0 \<mapsto> demo_watch],
                allocs := 1\<rparr>"

text \<open>
  The directory watch on \<^verbatim>\<open>/r\<close> with its sub-directories, as the construction
  leaves it in the small world: the directory watch is block 0, with the handlers 1, 2
  and 3 and the data 7, and its file watches are the blocks 1, 2 and 3.
\<close>

definition demo_fw :: "int \<Rightarrow> string \<Rightarrow> NihFileWatch" where
  "demo_fw wd path =
     \<lparr>fw_wd = wd, fw_path = path, fw_events = DIR_EVENTS, fw_watcher = Nih_dir_watcher,
      fw_data = 0, fw_parent = Some 0, fw_destructor = True\<rparr>"

definition demo_dw :: "addr list \<Rightarrow> NihDirWatch" where
  "demo_dw cs =
     \<lparr>dw_path = ''/r'', dw_subdirs = True, dw_filter = None, dw_create_handler = Some 1,
      dw_modify_handler = Some 2, dw_delete_handler = Some 3, dw_data = 7, dw_children = cs\<rparr>"

definition demo_tree :: state where
  "demo_tree =
     \<lparr>file_watches = [1, 2, 3], inotify_fd = 3,
      fw_heap = [1 \<mapsto> demo_fw 1 ''/r'', 2 \<mapsto> demo_fw 2 ''/r/d'', 3 \<mapsto> demo_fw 4 ''/r/d/x''],
      dw_heap = [0 \<mapsto> demo_dw [1, 2, 3]],
      allocs = 4, errno = 0, raised = None, recv_buf = [],
      trace = [Sys_inotify_init, Io_reopen 3, Sys_inotify_add_watch 3 ''/r'' DIR_EVENTS,
               Sys_inotify_add_watch 3 ''/r/d'' DIR_EVENTS,
               Sys_inotify_add_watch 3 ''/r/d/x'' DIR_EVENTS]\<rparr>"

text \<open>
  The same after \<^verbatim>\<open>/r/d\<close> has been renamed to \<^verbatim>\<open>/r/e\<close> and the moved-in event has
  been translated: the new watches 4 and 5 have the descriptors of the watches 2 and 3.
\<close>

definition demo_moved :: state where
  "demo_moved =
     \<lparr>file_watches = [1, 2, 3, 4, 5], inotify_fd = 3,
      fw_heap = [1 \<mapsto> demo_fw 1 ''/r'', 2 \<mapsto> demo_fw 2 ''/r/d'', 3 \<mapsto> demo_fw 4 ''/r/d/x'',
                 4 \<mapsto> demo_fw 2 ''/r/e'', 5 \<mapsto> demo_fw 4 ''/r/e/x''],
      dw_heap = [0 \<mapsto> demo_dw [1, 2, 3, 4, 5]],
      allocs = 6, errno = 0, raised = None, recv_buf = [],
      trace = [Sys_inotify_init, Io_reopen 3, Sys_inotify_add_watch 3 ''/r'' DIR_EVENTS,
               Sys_inotify_add_watch 3 ''/r/d'' DIR_EVENTS,
               Sys_inotify_add_watch 3 ''/r/d/x'' DIR_EVENTS,
               Call_create_handler 1 7 0 ''/r/e'',
               Sys_inotify_add_watch 3 ''/r/e'' DIR_EVENTS,
               Sys_inotify_add_watch 3 ''/r/e/x'' DIR_EVENTS]\<rparr>"

text \<open>
  An event as the kernel writes it: descriptor 2, mask \<^verbatim>\<open>IN_MODIFY\<close>, cookie 0 and
  the name \<^verbatim>\<open>f\<close> in four bytes.
\<close>

definition demo_event :: string where
  "demo_event =
     [CHR 0x02, CHR 0x00, CHR 0x00, CHR 0x00,  CHR 0x02, CHR 0x00, CHR 0x00, CHR 0x00,
      CHR 0x00, CHR 0x00, CHR 0x00, CHR 0x00,  CHR 0x04, CHR 0x00, CHR 0x00, CHR 0x00,
      CHR ''f'', CHR 0x00, CHR 0x00, CHR 0x00]"

text \<open>
  The receive buffer with that event and the first three bytes of a next one, in the
  state after the rename.
\<close>

definition demo_reading :: state where
  "demo_reading = demo_moved\<lparr>recv_buf := demo_event @ [CHR 0x02, CHR 0x00, CHR 0x00]\<rparr>"

text \<open>
  The directory watch on \<^verbatim>\<open>/r\<close> as the construction leaves it with the filter that
  excludes \<^verbatim>\<open>/r/d\<close>: only the root is watched.
\<close>

definition demo_ftree :: state where
  "demo_ftree =
     \<lparr>file_watches = [1], inotify_fd = 3,
      fw_heap = [1 \<mapsto> demo_fw 1 ''/r''],
      dw_heap = [0 \<mapsto> (demo_dw [1])\<lparr>dw_filter := Some demo_filter\<rparr>],
      allocs = 2, errno = 0, raised = None, recv_buf = [],
      trace = [Sys_inotify_init, Io_reopen 3, Sys_inotify_add_watch 3 ''/r'' DIR_EVENTS]\<rparr>"

text \<open>A kernel that lets the root be watched and refuses every other path.\<close>

definition EACCES :: int where "EACCES = 13"

definition demo_env_denied :: env where
  "demo_env_denied =
     demo_env\<lparr>sys_inotify_add_watch := (\<lambda>p m. if p = ''/r'' then Inr 1 else Inl EACCES)\<rparr>"

section \<open>Properties\<close>

subsection \<open>The parts of the state that each operation touches\<close>

lemma emit_fields [simp]:
  "trace (emit a s) = trace s @ [a]"
  "file_watches (emit a s) = file_watches s"
  "inotify_fd (emit a s) = inotify_fd s"
  "fw_heap (emit a s) = fw_heap s"
  "dw_heap (emit a s) = dw_heap s"
  "allocs (emit a s) = allocs s"
  "errno (emit a s) = errno s"
  "raised (emit a s) = raised s"
  "recv_buf (emit a s) = recv_buf s"
  by (simp_all add: emit_def)

lemma raise_fields [simp]:
  "trace (nih_error_raise_system s) = trace s"
  "file_watches (nih_error_raise_system s) = file_watches s"
  "inotify_fd (nih_error_raise_system s) = inotify_fd s"
  "fw_heap (nih_error_raise_system s) = fw_heap s"
  "dw_heap (nih_error_raise_system s) = dw_heap s"
  "allocs (nih_error_raise_system s) = allocs s"
  "errno (nih_error_raise_system s) = errno s"
  "raised (nih_error_raise_system s) = Some (errno s)"
  "recv_buf (nih_error_raise_system s) = recv_buf s"
  by (simp_all add: nih_error_raise_system_def)

lemma add_child_fields [simp]:
  "trace (add_child p a s) = trace s"
  "file_watches (add_child p a s) = file_watches s"
  "inotify_fd (add_child p a s) = inotify_fd s"
  "fw_heap (add_child p a s) = fw_heap s"
  "allocs (add_child p a s) = allocs s"
  "errno (add_child p a s) = errno s"
  "raised (add_child p a s) = raised s"
  "recv_buf (add_child p a s) = recv_buf s"
  by (simp_all add: add_child_def split: option.splits)

lemma del_child_fields [simp]:
  "trace (del_child p a s) = trace s"
  "file_watches (del_child p a s) = file_watches s"
  "inotify_fd (del_child p a s) = inotify_fd s"
  "fw_heap (del_child p a s) = fw_heap s"
  "allocs (del_child p a s) = allocs s"
  "errno (del_child p a s) = errno s"
  "raised (del_child p a s) = raised s"
  "recv_buf (del_child p a s) = recv_buf s"
  by (simp_all add: del_child_def split: option.splits)

lemma set_destructor_fields [simp]:
  "trace (nih_alloc_set_destructor s w d) = trace s"
  "file_watches (nih_alloc_set_destructor s w d) = file_watches s"
  "inotify_fd (nih_alloc_set_destructor s w d) = inotify_fd s"
  "dw_heap (nih_alloc_set_destructor s w d) = dw_heap s"
  "allocs (nih_alloc_set_destructor s w d) = allocs s"
  "errno (nih_alloc_set_destructor s w d) = errno s"
  "raised (nih_alloc_set_destructor s w d) = raised s"
  "recv_buf (nih_alloc_set_destructor s w d) = recv_buf s"
  "fw_heap (nih_alloc_set_destructor s w d) = (case fw_heap s w of None \<Rightarrow> fw_heap s
       | Some F \<Rightarrow> (fw_heap s)(w \<mapsto> F\<lparr>fw_destructor := d\<rparr>))"
  by (simp_all add: nih_alloc_set_destructor_def split: option.splits)

lemma list_add_fields [simp]:
  "trace (nih_list_add s w) = trace s"
  "file_watches (nih_list_add s w) = removeAll w (file_watches s) @ [w]"
  "inotify_fd (nih_list_add s w) = inotify_fd s"
  "fw_heap (nih_list_add s w) = fw_heap s"
  "dw_heap (nih_list_add s w) = dw_heap s"
  "allocs (nih_list_add s w) = allocs s"
  "errno (nih_list_add s w) = errno s"
  "raised (nih_list_add s w) = raised s"
  "recv_buf (nih_list_add s w) = recv_buf s"
  by (simp_all add: nih_list_add_def)

lemma list_remove_fields [simp]:
  "trace (nih_list_remove s w) = trace s"
  "file_watches (nih_list_remove s w) = removeAll w (file_watches s)"
  "inotify_fd (nih_list_remove s w) = inotify_fd s"
  "fw_heap (nih_list_remove s w) = fw_heap s"
  "dw_heap (nih_list_remove s w) = dw_heap s"
  "allocs (nih_list_remove s w) = allocs s"
  "errno (nih_list_remove s w) = errno s"
  "raised (nih_list_remove s w) = raised s"
  "recv_buf (nih_list_remove s w) = recv_buf s"
  by (simp_all add: nih_list_remove_def)

lemma file_init_fields [simp]:
  "file_watches (nih_file_init E s) = file_watches s"
  "fw_heap (nih_file_init E s) = fw_heap s"
  "dw_heap (nih_file_init E s) = dw_heap s"
  "allocs (nih_file_init E s) = allocs s"
  "raised (nih_file_init E s) = raised s"
  "recv_buf (nih_file_init E s) = recv_buf s"
  by (simp_all add: nih_file_init_def Let_def split: sum.splits)

lemma file_init_calls [simp]: "calls (nih_file_init E s) = calls s"
  by (simp add: calls_def nih_file_init_def Let_def split: sum.splits)

lemma remove_watch_fields [simp]:
  "inotify_fd (nih_file_remove_watch s w) = inotify_fd s"
  "dw_heap (nih_file_remove_watch s w) = dw_heap s"
  "allocs (nih_file_remove_watch s w) = allocs s"
  "errno (nih_file_remove_watch s w) = errno s"
  "raised (nih_file_remove_watch s w) = raised s"
  "recv_buf (nih_file_remove_watch s w) = recv_buf s"
  by (simp_all add: nih_file_remove_watch_def Let_def split: option.splits)

lemma remove_watch_list:
  "file_watches (nih_file_remove_watch s w)
     = (if live_wd s w then removeAll w (file_watches s) else file_watches s)"
  by (simp add: nih_file_remove_watch_def live_wd_def Let_def split: option.splits)

lemma remove_watch_trace:
  "trace (nih_file_remove_watch s w)
     = trace s @ (if live_wd s w then [Sys_inotify_rm_watch (inotify_fd s) (fw_wd (the (fw_heap s w)))] else [])"
  by (simp add: nih_file_remove_watch_def live_wd_def Let_def split: option.splits)

lemma remove_watch_heap:
  "fw_heap (nih_file_remove_watch s w)
     = (if live_wd s w then (fw_heap s)(w \<mapsto> (the (fw_heap s w))\<lparr>fw_wd := - 1\<rparr>) else fw_heap s)"
  by (simp add: nih_file_remove_watch_def live_wd_def Let_def split: option.splits)

lemma remove_watch_calls [simp]: "calls (nih_file_remove_watch s w) = calls s"
  by (simp add: calls_def remove_watch_trace)

lemma free_fw_fields [simp]:
  "inotify_fd (nih_free_fw s w) = inotify_fd s"
  "allocs (nih_free_fw s w) = allocs s"
  "errno (nih_free_fw s w) = errno s"
  "raised (nih_free_fw s w) = raised s"
  "recv_buf (nih_free_fw s w) = recv_buf s"
  "fw_heap (nih_free_fw s w) = (fw_heap s)(w := None)"
  by (auto simp add: nih_free_fw_def Let_def remove_watch_heap split: option.splits)

lemma free_fw_list:
  "file_watches (nih_free_fw s w)
     = (if releases s w then removeAll w (file_watches s) else file_watches s)"
  by (simp add: nih_free_fw_def releases_def live_wd_def Let_def remove_watch_list split: option.splits)

lemma free_fw_trace:
  "trace (nih_free_fw s w)
     = trace s @ (if releases s w then [Sys_inotify_rm_watch (inotify_fd s) (fw_wd (the (fw_heap s w)))] else [])"
  by (simp add: nih_free_fw_def releases_def live_wd_def Let_def remove_watch_trace split: option.splits)

lemma free_fw_calls [simp]: "calls (nih_free_fw s w) = calls s"
  by (simp add: calls_def free_fw_trace)

lemma fold_free_fields [simp]:
  "recv_buf (fold (\<lambda>c st. nih_free_fw st c) cs s) = recv_buf s"
  "calls (fold (\<lambda>c st. nih_free_fw st c) cs s) = calls s"
  "inotify_fd (fold (\<lambda>c st. nih_free_fw st c) cs s) = inotify_fd s"
  "allocs (fold (\<lambda>c st. nih_free_fw st c) cs s) = allocs s"
  "raised (fold (\<lambda>c st. nih_free_fw st c) cs s) = raised s"
  by (induction cs arbitrary: s) simp_all

lemma free_dw_fields [simp]:
  "recv_buf (nih_free_dw s d) = recv_buf s"
  "calls (nih_free_dw s d) = calls s"
  "inotify_fd (nih_free_dw s d) = inotify_fd s"
  "allocs (nih_free_dw s d) = allocs s"
  "raised (nih_free_dw s d) = raised s"
  by (simp_all add: nih_free_dw_def Let_def calls_def [of "_\<lparr>dw_heap := _\<rparr>"] split: option.splits)
     (simp_all add: calls_def [symmetric])

lemma calls_simps [simp]:
  "calls (emit a s) = calls s @ (if is_call a then [a] else [])"
  "calls (nih_error_raise_system s) = calls s"
  "calls (add_child p w s) = calls s"
  "calls (del_child p w s) = calls s"
  "calls (nih_list_add s w) = calls s"
  "calls (nih_list_remove s w) = calls s"
  "calls (nih_alloc_set_destructor s w d) = calls s"
  by (simp_all add: calls_def)

lemma calls_upd [simp]:
  "calls (s\<lparr>errno := e\<rparr>) = calls s"
  "calls (s\<lparr>fw_heap := h\<rparr>) = calls s"
  "calls (s\<lparr>dw_heap := h'\<rparr>) = calls s"
  "calls (s\<lparr>allocs := n\<rparr>) = calls s"
  "calls (s\<lparr>raised := r\<rparr>) = calls s"
  "calls (s\<lparr>recv_buf := b\<rparr>) = calls s"
  "calls (s\<lparr>file_watches := l\<rparr>) = calls s"
  "calls (s\<lparr>inotify_fd := fd\<rparr>) = calls s"
  by (simp_all add: calls_def)

lemma file_add_watch_frame:
  assumes "nih_file_add_watch E s parent path events watcher data = Some (s', r)"
  shows "recv_buf s' = recv_buf s \<and> calls s' = calls s"
  using assms
  by (auto simp add: nih_file_add_watch_def Let_def nih_new_def split: if_splits sum.splits)

subsection \<open>The walk: invariants and its result\<close>

lemma walk_preserves:
  assumes E: "\<And>s e. P s \<Longrightarrow> P (s\<lparr>errno := e\<rparr>)"
    and R: "\<And>s. P s \<Longrightarrow> P (nih_error_raise_system s)"
  shows "(\<And>s p s' r. P s \<Longrightarrow> V s p = Some (s', r) \<Longrightarrow> P s') \<Longrightarrow> P s
           \<Longrightarrow> nih_dir_walk V s path node types filt = Some (s', r) \<Longrightarrow> P s'"
    and "(\<And>s p s' r. P s \<Longrightarrow> V s p = Some (s', r) \<Longrightarrow> P s') \<Longrightarrow> P s
           \<Longrightarrow> walk_entries V s path ents types filt ret = Some (s', r) \<Longrightarrow> P s'"
proof (induction V s path node types filt and V s path ents types filt ret
       arbitrary: s' r and s' r rule: nih_dir_walk_walk_entries.induct)
  case (1 V s path st ds types filt)
  then show ?case
    by (auto simp add: E R split: if_splits sum.splits)
next
  case (2 V s path types filt ret)
  then show ?case by simp
next
  case (3 V s path name child rest types filt ret)
  note run = \<open>walk_entries V s path ((name, child) # rest) types filt ret = Some (s', r)\<close>
  note Ps = \<open>P s\<close>
  note Vp = "3.prems"(1)
  show ?case
  proof (cases "name = ''.'' \<or> name = ''..''")
    case True
    then show ?thesis using "3.IH"(1) [OF True Vp Ps] run by simp
  next
    case nd: False
    let ?x = "path_join path name"
    show ?thesis
    proof (cases "filtered filt ?x")
      case True
      then show ?thesis
        using "3.IH"(2) [OF nd refl True Vp Ps] run nd by (simp add: Let_def)
    next
      case nf: False
      show ?thesis
      proof (cases "st_mode child")
        case (Inl a)
        then show ?thesis
          using "3.IH"(3) [OF nd refl nf Inl Vp E [OF Ps]] run nd nf by (simp add: Let_def)
      next
        case (Inr b)
        from run nd nf Inr obtain s1 r1 where
          v: "(if b AND types \<noteq> 0 then V s ?x else Some (s, ret)) = Some (s1, r1)"
          by (auto simp add: Let_def split: option.splits)
        have P1: "P s1"
          using v Ps Vp by (auto split: if_splits)
        show ?thesis
        proof (cases "r1 < 0")
          case True
          then show ?thesis using run nd nf Inr v P1 by (simp add: Let_def)
        next
          case r1: False
          from run nd nf Inr v r1 obtain s2 r2 where
            w: "(if S_ISDIR b then nih_dir_walk V s1 ?x child types filt else Some (s1, r1))
                  = Some (s2, r2)"
            by (auto simp add: Let_def split: option.splits)
          have P2: "P s2"
          proof (cases "S_ISDIR b")
            case True
            with w have "nih_dir_walk V s1 ?x child types filt = Some (s2, r2)" by simp
            from "3.IH"(4) [OF nd refl nf Inr v refl r1 True Vp P1 this]
            show ?thesis by simp
          next
            case False
            with w P1 show ?thesis by simp
          qed
          show ?thesis
          proof (cases "r2 < 0")
            case True
            then show ?thesis using run nd nf Inr v r1 w P2 by (simp add: Let_def)
          next
            case r2: False
            have "walk_entries V s2 path rest types filt r2 = Some (s', r)"
              using run nd nf Inr v r1 w r2 by (simp add: Let_def)
            from "3.IH"(5) [OF nd refl nf Inr v refl r1 w refl r2 Vp P2 this]
            show ?thesis by simp
          qed
        qed
      qed
    qed
  qed
qed


lemma DIR_EVENTS_value: "DIR_EVENTS = 0xBC2"
  by (simp add: DIR_EVENTS_def IN_CREATE_def IN_DELETE_def IN_MODIFY_def IN_MOVE_def
        IN_MOVE_SELF_def IN_MOVED_FROM_def IN_MOVED_TO_def)

lemma DIR_EVENTS_nonzero: "DIR_EVENTS \<noteq> 0"
  by (simp add: DIR_EVENTS_value)

lemma S_IFDIR_nonzero: "S_IFDIR \<noteq> 0"
  by (simp add: S_IFDIR_def)

lemma file_add_watch_total:
  "events \<noteq> 0 \<Longrightarrow> \<exists>s' r. nih_file_add_watch E s parent path events watcher data = Some (s', r)"
  by (simp add: nih_file_add_watch_def Let_def split: prod.splits option.splits)

lemma file_add_watch_null:
  assumes "nih_file_add_watch E s parent path events watcher data = Some (s', None)"
  shows "raised s' \<noteq> None" and "file_watches s' = file_watches s"
  using assms
  by (auto simp add: nih_file_add_watch_def Let_def nih_new_def free_fw_list releases_def
        split: if_splits sum.splits)

lemma visitor_total:
  "\<exists>s'. nih_dir_add_file_watch E watch s path = Some (s', 0)"
proof -
  obtain s1 r where a: "nih_file_add_watch E s (Some watch) path DIR_EVENTS Nih_dir_watcher watch = Some (s1, r)"
    using file_add_watch_total [OF DIR_EVENTS_nonzero] by blast
  show ?thesis
  proof (cases r)
    case None
    with a file_add_watch_null(1) [of E s "Some watch" path DIR_EVENTS Nih_dir_watcher watch s1]
    show ?thesis
      by (auto simp add: nih_dir_add_file_watch_def nih_error_get_def split: option.splits)
  next
    case (Some w)
    with a show ?thesis by (simp add: nih_dir_add_file_watch_def)
  qed
qed

lemma walk_total:
  shows "(\<And>s p. \<exists>s'. V s p = Some (s', 0)) \<Longrightarrow> types \<noteq> 0
           \<Longrightarrow> \<exists>s' r. nih_dir_walk V s path node types filt = Some (s', r)
                 \<and> (r = 0 \<or> r = - 1) \<and> (opens_all node \<longrightarrow> r = 0)
                 \<and> (r = - 1 \<longrightarrow> raised s' \<noteq> None)"
    and "(\<And>s p. \<exists>s'. V s p = Some (s', 0)) \<Longrightarrow> types \<noteq> 0 \<Longrightarrow> ret = 0
           \<Longrightarrow> \<exists>s' r. walk_entries V s path ents types filt ret = Some (s', r)
                 \<and> (r = 0 \<or> r = - 1)
                 \<and> ((\<forall>nc \<in> set ents. case st_mode (snd nc) of Inl e \<Rightarrow> True
                        | Inr m \<Rightarrow> S_ISDIR m \<longrightarrow> opens_all (snd nc)) \<longrightarrow> r = 0)
                 \<and> (r = - 1 \<longrightarrow> raised s' \<noteq> None)"
proof (induction V s path node types filt and V s path ents types filt ret
       rule: nih_dir_walk_walk_entries.induct)
  case (1 V s path st ds types filt)
  show ?case
  proof (cases ds)
    case (Inl e)
    then show ?thesis using "1.prems" by simp
  next
    case (Inr ents)
    from "1.IH" [OF "1.prems"(2) Inr "1.prems"(1) "1.prems"(2) refl]
    show ?thesis using Inr "1.prems" by simp
  qed
next
  case (2 V s path types filt ret)
  then show ?case by simp
next
  case (3 V s path name child rest types filt ret)
  note Vp = "3.prems"(1) and ty = "3.prems"(2) and r0 = "3.prems"(3)
  let ?x = "path_join path name"
  show ?case
  proof (cases "name = ''.'' \<or> name = ''..''")
    case True
    from "3.IH"(1) [OF True Vp ty r0] True show ?thesis by auto
  next
    case nd: False
    show ?thesis
    proof (cases "filtered filt ?x")
      case True
      from "3.IH"(2) [OF nd refl True Vp ty r0] nd True show ?thesis
        by (auto simp add: Let_def)
    next
      case nf: False
      show ?thesis
      proof (cases "st_mode child")
        case (Inl a)
        from "3.IH"(3) [OF nd refl nf Inl Vp ty r0] nd nf Inl show ?thesis
          by (auto simp add: Let_def)
      next
        case (Inr b)
        have "\<exists>s1. (if b AND types \<noteq> 0 then V s ?x else Some (s, ret)) = Some (s1, 0)"
          using Vp [of s ?x] r0 by (cases "b AND types \<noteq> 0") auto
        then obtain s1 where
          v: "(if b AND types \<noteq> 0 then V s ?x else Some (s, ret)) = Some (s1, 0)" ..
        have r1: "\<not> (0::int) < 0" by simp
        show ?thesis
        proof (cases "S_ISDIR b")
          case True
          from "3.IH"(4) [OF nd refl nf Inr v refl r1 True Vp ty]
          obtain s2 r2 where
            w: "nih_dir_walk V s1 ?x child types filt = Some (s2, r2)"
            and r2: "r2 = 0 \<or> r2 = - 1" and op: "opens_all child \<longrightarrow> r2 = 0"
            and ra: "r2 = - 1 \<longrightarrow> raised s2 \<noteq> None"
            by blast
          show ?thesis
          proof (cases "r2 < 0")
            case neg: True
            with r2 op have "\<not> opens_all child" by auto
            with nd nf Inr v w True neg r2 ra show ?thesis
              by (auto simp add: Let_def)
          next
            case nn: False
            with r2 have r20: "r2 = 0" by auto
            have w': "(if S_ISDIR b then nih_dir_walk V s1 ?x child types filt else Some (s1, 0))
                        = Some (s2, r2)"
              using True w by simp
            from "3.IH"(5) [OF nd refl nf Inr v refl r1 w' refl nn Vp ty r20]
            show ?thesis using nd nf Inr v w True nn r20
              by (auto simp add: Let_def)
          qed
        next
          case False
          have w': "(if S_ISDIR b then nih_dir_walk V s1 ?x child types filt else Some (s1, 0))
                        = Some (s1, 0)"
            using False by simp
          from "3.IH"(5) [OF nd refl nf Inr v refl r1 w' refl r1 Vp ty refl]
          show ?thesis using nd nf Inr v False
            by (auto simp add: Let_def)
        qed
      qed
    qed
  qed
qed

subsection \<open>Failures below the root of a directory watch\<close>

lemma visitor_on_failure:
  assumes "nih_file_add_watch E s (Some watch) path DIR_EVENTS Nih_dir_watcher watch = Some (s1, None)"
  shows "nih_dir_add_file_watch E watch s path = Some (emit (Log_warn path) (s1\<lparr>raised := None\<rparr>), 0)"
  using assms file_add_watch_null(1) [OF assms]
  by (auto simp add: nih_dir_add_file_watch_def nih_error_get_def)

lemma visitor_walk:
  "\<exists>s' r. nih_dir_walk (nih_dir_add_file_watch E watch) s path node S_IFDIR filt = Some (s', r)
      \<and> (r = 0 \<or> r = - 1) \<and> (opens_all node \<longrightarrow> r = 0) \<and> (r = - 1 \<longrightarrow> raised s' \<noteq> None)"
  by (rule walk_total(1) [where V = "nih_dir_add_file_watch E watch", OF visitor_total S_IFDIR_nonzero])

lemma fd_ready_init: "fd_ready E s \<Longrightarrow> 0 \<le> inotify_fd (nih_file_init E s)"
  by (auto simp add: fd_ready_def nih_file_init_def Let_def)

lemma fd_ready_upd [simp]:
  "fd_ready E (s\<lparr>dw_heap := h\<rparr>) = fd_ready E s"
  "fd_ready E (s\<lparr>allocs := n\<rparr>) = fd_ready E s"
  by (simp_all add: fd_ready_def)

lemma file_add_watch_succeeds:
  assumes "events \<noteq> 0" and "fd_ready E s" and "sys_alloc E (allocs s)"
    and "sys_inotify_add_watch E path events = Inr d" and "0 \<le> d"
  shows "\<exists>s'. nih_file_add_watch E s parent path events watcher data = Some (s', Some (allocs s))"
  using assms fd_ready_init [OF assms(2)]
  by (simp add: nih_file_add_watch_def Let_def nih_new_def)

lemma dir_add_watch_succeeds:
  assumes "st_mode (sys_fs E path) = Inr m" and "S_ISDIR m"
    and "sys_alloc E (allocs s)" and "sys_alloc E (Suc (allocs s))"
    and "fd_ready E s"
    and "sys_inotify_add_watch E path DIR_EVENTS = Inr d" and "0 \<le> d"
    and "opens_all (sys_fs E path)"
  shows "\<exists>s'. nih_dir_add_watch E s path subdirs filt ch mh dh data = Some (s', Some (allocs s))"
proof -
  let ?D = "\<lparr>dw_path = path, dw_subdirs = subdirs, dw_filter = filt, dw_create_handler = ch,
             dw_modify_handler = mh, dw_delete_handler = dh, dw_data = data, dw_children = []\<rparr>"
  let ?s1 = "s\<lparr>allocs := Suc (allocs s)\<rparr>"
  let ?s2 = "?s1\<lparr>dw_heap := (dw_heap ?s1)(allocs s \<mapsto> ?D)\<rparr>"
  have "fd_ready E ?s2" "sys_alloc E (allocs ?s2)"
    using assms by simp_all
  from file_add_watch_succeeds [OF DIR_EVENTS_nonzero this assms(6,7)]
  obtain s3 where a: "nih_file_add_watch E ?s2 (Some (allocs s)) path DIR_EVENTS Nih_dir_watcher (allocs s)
      = Some (s3, Some (allocs ?s2))" by blast
  from visitor_walk [of E "allocs s" s3 path "sys_fs E path" filt] assms(8)
  obtain s4 where w: "nih_dir_walk (nih_dir_add_file_watch E (allocs s)) s3 path (sys_fs E path) S_IFDIR filt
      = Some (s4, 0)" by auto
  show ?thesis
    using assms(1-3) a w by (simp add: nih_dir_add_watch_def nih_new_def Let_def)
qed

lemma dir_watcher_total:
  assumes "dw_heap s dw = Some D" and "fw_heap s fw = Some F" and "events \<noteq> 0"
    and "events AND IN_IGNORED \<noteq> 0 \<or> events AND IN_MOVE_SELF \<noteq> 0 \<or> name \<noteq> None"
  shows "\<exists>s'. nih_dir_watcher E s dw fw events cookie name = Some s'"
proof (cases "events AND IN_IGNORED \<noteq> 0 \<or> events AND IN_MOVE_SELF \<noteq> 0")
  case True
  then show ?thesis using assms(1-3) by (auto simp add: nih_dir_watcher_def Let_def)
next
  case False
  with assms obtain n where n: "name = Some n" by auto
  let ?p = "path_join (fw_path F) n"
  let ?s1 = "case dw_create_handler D of None \<Rightarrow> s
             | Some h \<Rightarrow> emit (Call_create_handler h (dw_data D) dw ?p) s"
  obtain s2 where v: "nih_dir_add_file_watch E dw ?s1 ?p = Some (s2, 0)"
    using visitor_total by blast
  from visitor_walk [of E dw s2 ?p "sys_fs E ?p" "dw_filter D"]
  obtain s3 r where w: "nih_dir_walk (nih_dir_add_file_watch E dw) s2 ?p (sys_fs E ?p) S_IFDIR (dw_filter D)
      = Some (s3, r)" and r: "r = 0 \<or> r = - 1" and ra: "r = - 1 \<longrightarrow> raised s3 \<noteq> None"
    by blast
  have "\<exists>s4. (if r < 0 then (case nih_error_get s3 of None \<Rightarrow> None | Some (s4, err) \<Rightarrow> Some s4)
               else Some s3) = Some s4"
    using r ra by (auto simp add: nih_error_get_def)
  then show ?thesis
    using assms(1-3) False n v w
    by (simp add: nih_dir_watcher_def Let_def)
qed

subsection \<open>The watch on the root of a directory watch\<close>

lemma file_init_keeps_fd: "0 \<le> inotify_fd s \<Longrightarrow> nih_file_init E s = s"
  by (simp add: nih_file_init_def)

lemma file_init_trace: "\<exists>acts. trace (nih_file_init E s) = trace s @ acts"
  by (simp add: nih_file_init_def Let_def split: sum.splits)

lemma file_add_watch_keeps:
  assumes "nih_file_add_watch E s parent path events watcher data = Some (s', r)"
    and "w < allocs s"
  shows "fw_heap s' w = fw_heap s w"
    and "w \<in> set (file_watches s') \<longleftrightarrow> w \<in> set (file_watches s)"
    and "allocs s \<le> allocs s'"
    and "0 \<le> inotify_fd s \<longrightarrow> inotify_fd s' = inotify_fd s"
    and "set (trace s) \<subseteq> set (trace s')"
  using assms file_init_trace [of E s]
  by (auto simp add: nih_file_add_watch_def Let_def nih_new_def free_fw_list free_fw_trace
        file_init_keeps_fd split: if_splits sum.splits)

lemma file_add_watch_new:
  assumes "nih_file_add_watch E s parent path events watcher data = Some (s', Some w)"
  shows "\<exists>d. fw_heap s' w = Some \<lparr>fw_wd = d, fw_path = path, fw_events = events,
                 fw_watcher = watcher, fw_data = data, fw_parent = parent,
                 fw_destructor = True\<rparr> \<and> 0 \<le> d"
    and "w \<in> set (file_watches s')"
    and "w = allocs s" and "allocs s' = Suc (allocs s)"
    and "0 \<le> inotify_fd s'"
    and "Sys_inotify_add_watch (inotify_fd s') path events \<in> set (trace s')"
  using assms
  by (auto simp add: nih_file_add_watch_def Let_def nih_new_def split: if_splits sum.splits)

lemma visitor_keeps:
  assumes "keeps w W fd a s" and "nih_dir_add_file_watch E watch s p = Some (s', r)"
  shows "keeps w W fd a s'"
proof -
  from assms(2) obtain s1 r1 where
    a: "nih_file_add_watch E s (Some watch) p DIR_EVENTS Nih_dir_watcher watch = Some (s1, r1)"
    by (auto simp add: nih_dir_add_file_watch_def split: option.splits)
  have k: "keeps w W fd a s1"
    using assms(1) file_add_watch_keeps [OF a, of w] by (auto simp add: keeps_def)
  show ?thesis
  proof (cases r1)
    case None
    with a assms(2) k show ?thesis
      by (auto simp add: nih_dir_add_file_watch_def nih_error_get_def keeps_def split: option.splits)
  next
    case (Some x)
    with a assms(2) k show ?thesis
      by (auto simp add: nih_dir_add_file_watch_def)
  qed
qed

lemma walk_keeps:
  assumes "keeps w W fd a s"
    and "nih_dir_walk (nih_dir_add_file_watch E watch) s path node types filt = Some (s', r)"
  shows "keeps w W fd a s'"
proof (rule walk_preserves(1) [where P = "keeps w W fd a" and V = "nih_dir_add_file_watch E watch",
        OF _ _ _ assms(1) assms(2)])
  show "keeps w W fd a (s\<lparr>errno := e\<rparr>)" if "keeps w W fd a s" for s e
    using that by (simp add: keeps_def)
  show "keeps w W fd a (nih_error_raise_system s)" if "keeps w W fd a s" for s
    using that by (simp add: keeps_def)
  show "keeps w W fd a s'" if "keeps w W fd a s" "nih_dir_add_file_watch E watch s p = Some (s', r)"
    for s p s' r
    using visitor_keeps that by blast
qed

lemma DIR_EVENTS_bits:
  "DIR_EVENTS = IN_CREATE OR IN_DELETE OR IN_MODIFY OR IN_MOVED_TO OR IN_MOVED_FROM OR IN_MOVE_SELF"
  "DIR_EVENTS AND IN_IGNORED = 0"
  by (simp_all add: DIR_EVENTS_def IN_CREATE_def IN_DELETE_def IN_MODIFY_def IN_MOVE_def
        IN_MOVE_SELF_def IN_MOVED_FROM_def IN_MOVED_TO_def IN_IGNORED_def)

text \<open>
  C7, as amended. When \<^verbatim>\<open>nih_dir_add_watch\<close> returns a directory watch, a file watch
  on the root is registered, bound to \<^verbatim>\<open>nih_dir_watcher\<close> with the directory watch as
  its data, and the kernel has been asked to watch the root with the mask
  \<^verbatim>\<open>DIR_EVENTS\<close>. That mask is the union of six event bits: created, deleted,
  modified, moved-in, moved-out and moved-self. The bit of the seventh kind,
  invalidated (\<^verbatim>\<open>IN_IGNORED\<close>), is not in the mask.
\<close>

theorem dir_add_watch_root_mask:
  assumes "nih_dir_add_watch E s path subdirs filt ch mh dh data = Some (s', Some watch)"
  shows "(\<exists>w d. fw_heap s' w = Some \<lparr>fw_wd = d, fw_path = path, fw_events = DIR_EVENTS,
                   fw_watcher = Nih_dir_watcher, fw_data = watch, fw_parent = Some watch,
                   fw_destructor = True\<rparr>
            \<and> 0 \<le> d \<and> w \<in> set (file_watches s')
            \<and> Sys_inotify_add_watch (inotify_fd s') path DIR_EVENTS \<in> set (trace s'))
     \<and> DIR_EVENTS = IN_CREATE OR IN_DELETE OR IN_MODIFY OR IN_MOVED_TO OR IN_MOVED_FROM OR IN_MOVE_SELF
     \<and> DIR_EVENTS AND IN_IGNORED = 0"
proof -
  from assms obtain m where m: "st_mode (sys_fs E path) = Inr m" "S_ISDIR m"
    by (auto simp add: nih_dir_add_watch_def split: sum.splits if_splits)
  let ?D = "\<lparr>dw_path = path, dw_subdirs = subdirs, dw_filter = filt, dw_create_handler = ch,
             dw_modify_handler = mh, dw_delete_handler = dh, dw_data = data, dw_children = []\<rparr>"
  let ?s1 = "s\<lparr>allocs := Suc (allocs s)\<rparr>"
  let ?s2 = "?s1\<lparr>dw_heap := (dw_heap ?s1)(allocs s \<mapsto> ?D)\<rparr>"
  from assms m have al: "sys_alloc E (allocs s)" and wa: "watch = allocs s"
    by (auto simp add: nih_dir_add_watch_def nih_new_def Let_def
          split: if_splits option.splits prod.splits)
  from assms m al obtain s3 w where
    a: "nih_file_add_watch E ?s2 (Some watch) path DIR_EVENTS Nih_dir_watcher watch = Some (s3, Some w)"
    using wa
    by (auto simp add: nih_dir_add_watch_def nih_new_def Let_def
          split: if_splits option.splits prod.splits)
  from file_add_watch_new [OF a] obtain d where
    h: "fw_heap s3 w = Some \<lparr>fw_wd = d, fw_path = path, fw_events = DIR_EVENTS,
                   fw_watcher = Nih_dir_watcher, fw_data = watch, fw_parent = Some watch,
                   fw_destructor = True\<rparr>" "0 \<le> d"
    and l: "w \<in> set (file_watches s3)" "w = allocs ?s2" "allocs s3 = Suc (allocs ?s2)"
      "0 \<le> inotify_fd s3"
      "Sys_inotify_add_watch (inotify_fd s3) path DIR_EVENTS \<in> set (trace s3)"
    by blast
  let ?W = "\<lparr>fw_wd = d, fw_path = path, fw_events = DIR_EVENTS,
                   fw_watcher = Nih_dir_watcher, fw_data = watch, fw_parent = Some watch,
                   fw_destructor = True\<rparr>"
  let ?a = "Sys_inotify_add_watch (inotify_fd s3) path DIR_EVENTS"
  have k3: "keeps w ?W (inotify_fd s3) ?a s3"
    using h l by (simp add: keeps_def)
  have "keeps w ?W (inotify_fd s3) ?a s'"
  proof (cases subdirs)
    case False
    with assms m al a wa have "s' = s3"
      by (simp add: nih_dir_add_watch_def nih_new_def Let_def)
    with k3 show ?thesis by simp
  next
    case True
    with assms m al a wa have
      "nih_dir_walk (nih_dir_add_file_watch E watch) s3 path (sys_fs E path) S_IFDIR filt = Some (s', 0)
       \<or> (\<exists>r. nih_dir_walk (nih_dir_add_file_watch E watch) s3 path (sys_fs E path) S_IFDIR filt = Some (s', r))"
      by (auto simp add: nih_dir_add_watch_def nih_new_def Let_def split: option.splits if_splits)
    then show ?thesis using walk_keeps [OF k3] by blast
  qed
  then show ?thesis
    using h(2) DIR_EVENTS_bits by (auto simp add: keeps_def)
qed

subsection \<open>What the translator calls\<close>

lemma visitor_frame:
  assumes "nih_dir_add_file_watch E watch s p = Some (s', r)"
  shows "recv_buf s' = recv_buf s \<and> calls s' = calls s"
proof -
  from assms obtain s1 r1 where
    a: "nih_file_add_watch E s (Some watch) p DIR_EVENTS Nih_dir_watcher watch = Some (s1, r1)"
    by (auto simp add: nih_dir_add_file_watch_def split: option.splits)
  from file_add_watch_frame [OF a] a assms show ?thesis
    by (cases r1) (auto simp add: nih_dir_add_file_watch_def nih_error_get_def split: option.splits)
qed

lemma walk_frame:
  assumes "nih_dir_walk (nih_dir_add_file_watch E watch) s path node types filt = Some (s', r)"
  shows "recv_buf s' = recv_buf s \<and> calls s' = calls s"
proof (rule walk_preserves(1) [where P = "\<lambda>x. recv_buf x = recv_buf s \<and> calls x = calls s"
        and V = "nih_dir_add_file_watch E watch", OF _ _ _ _ assms])
  show "recv_buf s = recv_buf s \<and> calls s = calls s" by simp
  show "recv_buf (x\<lparr>errno := e\<rparr>) = recv_buf s \<and> calls (x\<lparr>errno := e\<rparr>) = calls s"
    if "recv_buf x = recv_buf s \<and> calls x = calls s" for x e
    using that by simp
  show "recv_buf (nih_error_raise_system x) = recv_buf s \<and> calls (nih_error_raise_system x) = calls s"
    if "recv_buf x = recv_buf s \<and> calls x = calls s" for x
    using that by simp
  show "recv_buf x' = recv_buf s \<and> calls x' = calls s"
    if "recv_buf x = recv_buf s \<and> calls x = calls s"
      "nih_dir_add_file_watch E watch x p = Some (x', r)" for x p x' r
    using that visitor_frame by metis
qed

lemma list_free_frame [simp]:
  "recv_buf (nih_list_free s w) = recv_buf s" "calls (nih_list_free s w) = calls s"
  by (simp_all add: nih_list_free_def)

lemma dir_watcher_calls:
  assumes run: "nih_dir_watcher E s dw fw events cookie name = Some s'"
    and D: "dw_heap s dw = Some D" and F: "fw_heap s fw = Some F"
  shows "calls s' = calls s @ handler_calls D dw F events name" and "recv_buf s' = recv_buf s"
proof -
  have ev: "events \<noteq> 0" using run D F by (auto simp add: nih_dir_watcher_def)
  have "calls s' = calls s @ handler_calls D dw F events name \<and> recv_buf s' = recv_buf s"
  proof (cases "events AND IN_IGNORED \<noteq> 0 \<or> events AND IN_MOVE_SELF \<noteq> 0")
    case True
    with run D F ev show ?thesis
      by (auto simp add: nih_dir_watcher_def handler_calls_def handler_call_def Let_def split: option.splits if_splits)
  next
    case self: False
    with run D F ev obtain n where n: "name = Some n"
      by (cases name) (auto simp add: nih_dir_watcher_def)
    let ?p = "path_join (fw_path F) n"
    show ?thesis
    proof (cases "filtered (dw_filter D) ?p")
      case True
      with run D F ev self n show ?thesis
        by (auto simp add: nih_dir_watcher_def handler_calls_def handler_call_def Let_def)
    next
      case nf: False
      show ?thesis
      proof (cases "events AND IN_CREATE \<noteq> 0 \<or> events AND IN_MOVED_TO \<noteq> 0")
        case False
        with run D F ev self n nf show ?thesis
          by (auto simp add: nih_dir_watcher_def handler_calls_def handler_call_def Let_def split: option.splits if_splits)
      next
        case cr: True
        let ?s1 = "case dw_create_handler D of None \<Rightarrow> s
             | Some h \<Rightarrow> emit (Call_create_handler h (dw_data D) dw ?p) s"
        have c1: "calls ?s1 = calls s @ handler_calls D dw F events name"
          "recv_buf ?s1 = recv_buf s"
          using self n nf cr by (auto simp add: handler_calls_def handler_call_def split: option.splits)
        show ?thesis
        proof (cases "dw_subdirs D \<and> (case st_mode (sys_fs E ?p) of Inl e \<Rightarrow> False | Inr m \<Rightarrow> S_ISDIR m)")
          case False
          with run D F ev self n nf cr have "s' = ?s1"
            by (auto simp add: nih_dir_watcher_def Let_def)
          with c1 show ?thesis by simp
        next
          case True
          with run D F ev self n nf cr obtain s2 r2 s3 r3 where
            v: "nih_dir_add_file_watch E dw ?s1 ?p = Some (s2, r2)"
            and w: "nih_dir_walk (nih_dir_add_file_watch E dw) s2 ?p (sys_fs E ?p) S_IFDIR (dw_filter D)
                     = Some (s3, r3)"
            and fin: "(if r3 < 0 then (case nih_error_get s3 of None \<Rightarrow> None | Some (s4, err) \<Rightarrow> Some s4)
                       else Some s3) = Some s'"
            by (auto simp add: nih_dir_watcher_def Let_def split: option.splits)
          from fin have "calls s' = calls s3 \<and> recv_buf s' = recv_buf s3"
            by (auto simp add: nih_error_get_def split: if_splits option.splits)
          with visitor_frame [OF v] walk_frame [OF w] c1 show ?thesis by simp
        qed
      qed
    qed
  qed
  then show "calls s' = calls s @ handler_calls D dw F events name" and "recv_buf s' = recv_buf s"
    by simp_all
qed

subsection \<open>A refused watch disturbs nothing\<close>

lemma removals_simps [simp]:
  "removals (emit a s) = removals s @ (if is_removal a then [a] else [])"
  "removals (nih_error_raise_system s) = removals s"
  "removals (add_child p w s) = removals s"
  "removals (del_child p w s) = removals s"
  "removals (nih_list_add s w) = removals s"
  "removals (nih_list_remove s w) = removals s"
  "removals (nih_alloc_set_destructor s w d) = removals s"
  by (simp_all add: removals_def)

lemma removals_upd [simp]:
  "removals (s\<lparr>errno := e\<rparr>) = removals s"
  "removals (s\<lparr>fw_heap := h\<rparr>) = removals s"
  "removals (s\<lparr>dw_heap := h'\<rparr>) = removals s"
  "removals (s\<lparr>allocs := n\<rparr>) = removals s"
  "removals (s\<lparr>raised := r\<rparr>) = removals s"
  "removals (s\<lparr>file_watches := l\<rparr>) = removals s"
  "removals (s\<lparr>inotify_fd := fd\<rparr>) = removals s"
  by (simp_all add: removals_def)

lemma file_init_removals [simp]: "removals (nih_file_init E s) = removals s"
  by (simp add: removals_def nih_file_init_def Let_def split: sum.splits)

lemma free_fw_removals: "\<not> releases s w \<Longrightarrow> removals (nih_free_fw s w) = removals s"
  by (simp add: removals_def free_fw_trace)

lemma add_child_heap:
  "dw_heap (add_child parent a s) d =
     (case dw_heap s d of None \<Rightarrow> None
      | Some D \<Rightarrow> Some (if parent = Some d then D\<lparr>dw_children := dw_children D @ [a]\<rparr> else D))"
  by (auto simp add: add_child_def split: option.splits)

lemma del_child_heap:
  "dw_heap (del_child parent a s) d =
     (case dw_heap s d of None \<Rightarrow> None
      | Some D \<Rightarrow> Some (if parent = Some d then D\<lparr>dw_children := removeAll a (dw_children D)\<rparr> else D))"
  by (auto simp add: del_child_def split: option.splits)

lemma free_fw_dw_heap:
  "dw_heap (nih_free_fw s w) d =
     (case fw_heap s w of None \<Rightarrow> dw_heap s d
      | Some F \<Rightarrow>
         (case dw_heap s d of None \<Rightarrow> None
          | Some D \<Rightarrow> Some (if fw_parent F = Some d
                            then D\<lparr>dw_children := removeAll w (dw_children D)\<rparr> else D)))"
  by (auto simp add: nih_free_fw_def Let_def del_child_heap split: option.splits)

lemma filter_less_less:
  fixes a b :: nat
  assumes "a \<le> b" and "filter (\<lambda>c. c < b) xs = filter (\<lambda>c. c < b) ys"
  shows "filter (\<lambda>c. c < a) xs = filter (\<lambda>c. c < a) ys"
proof -
  have "filter (\<lambda>c. c < a) zs = filter (\<lambda>c. c < a) (filter (\<lambda>c. c < b) zs)" for zs
    using assms(1) by (induction zs) auto
  from this [of xs] this [of ys] assms(2) show ?thesis by simp
qed

lemma filter_removeAll_fresh: "\<not> P w \<Longrightarrow> filter P (removeAll w l) = filter P l"
  by (induction l) auto

lemma dw_kept_simps [simp]:
  "dw_kept a D (Some D)"
  "a \<le> w \<Longrightarrow> dw_kept a D (Some (D\<lparr>dw_children := removeAll w (dw_children D)\<rparr>))"
  "a \<le> w \<Longrightarrow> dw_kept a D (Some (D\<lparr>dw_children := dw_children D @ [w]\<rparr>))"
  by (auto simp add: dw_kept_def filter_removeAll_fresh)

lemma dw_kept_trans:
  assumes "a \<le> b" and "dw_kept a D (Some D')" and "dw_kept b D' x"
  shows "dw_kept a D x"
proof -
  from assms(3) obtain D'' where x: "x = Some D''"
    and 1: "D''\<lparr>dw_children := dw_children D'\<rparr> = D'"
    and 2: "filter (\<lambda>c. c < b) (dw_children D'') = filter (\<lambda>c. c < b) (dw_children D')"
    by (auto simp add: dw_kept_def split: option.splits)
  from assms(2) have 3: "D'\<lparr>dw_children := dw_children D\<rparr> = D"
    and 4: "filter (\<lambda>c. c < a) (dw_children D') = filter (\<lambda>c. c < a) (dw_children D)"
    by (auto simp add: dw_kept_def)
  from 1 3 have "D''\<lparr>dw_children := dw_children D\<rparr> = D"
    by (metis NihDirWatch.update_convs(8) NihDirWatch.surjective)
  moreover from filter_less_less [OF assms(1) 2] 4
  have "filter (\<lambda>c. c < a) (dw_children D'') = filter (\<lambda>c. c < a) (dw_children D)" by simp
  ultimately show ?thesis using x by (simp add: dw_kept_def)
qed

lemma undisturbed_refl [simp]: "undisturbed s s"
  by (simp add: undisturbed_def)

lemma undisturbed_trans:
  assumes "undisturbed s t" and "undisturbed t u"
  shows "undisturbed s u"
proof -
  have le: "allocs s \<le> allocs t" "allocs t \<le> allocs u"
    using assms by (simp_all add: undisturbed_def)
  have h: "fw_heap u w = fw_heap s w" if "w < allocs s" for w
    using that le assms by (simp add: undisturbed_def)
  have l: "filter (\<lambda>w. w < allocs s) (file_watches u) = filter (\<lambda>w. w < allocs s) (file_watches s)"
  proof -
    have "filter (\<lambda>w. w < allocs t) (file_watches u) = filter (\<lambda>w. w < allocs t) (file_watches t)"
      using assms(2) by (simp add: undisturbed_def)
    from filter_less_less [OF le(1) this] assms(1) show ?thesis by (simp add: undisturbed_def)
  qed
  have d: "dw_kept (allocs s) D (dw_heap u d)"
    if "d < allocs s" "dw_heap s d = Some D" for d D
  proof -
    from that assms(1) have 1: "dw_kept (allocs s) D (dw_heap t d)"
      unfolding undisturbed_def by blast
    then obtain D' where 2: "dw_heap t d = Some D'"
      by (auto simp add: dw_kept_def split: option.splits)
    have "d < allocs t" using that le by simp
    with 2 assms(2) have "dw_kept (allocs t) D' (dw_heap u d)"
      unfolding undisturbed_def by blast
    from dw_kept_trans [OF le(1) _ this] 1 2 show ?thesis by simp
  qed
  have r: "removals u = removals s" "prefix (trace s) (trace u)"
    using assms by (auto simp add: undisturbed_def)
  have f: "0 \<le> inotify_fd s \<longrightarrow> inotify_fd u = inotify_fd s"
    using assms by (auto simp add: undisturbed_def)
  show ?thesis
    unfolding undisturbed_def using le h l d r f by auto
qed

lemma undisturbed_simple:
  "undisturbed s t \<Longrightarrow> undisturbed s (t\<lparr>errno := e\<rparr>)"
  "undisturbed s t \<Longrightarrow> undisturbed s (t\<lparr>raised := r\<rparr>)"
  "undisturbed s t \<Longrightarrow> undisturbed s (nih_error_raise_system t)"
  "undisturbed s t \<Longrightarrow> \<not> is_removal a \<Longrightarrow> undisturbed s (emit a t)"
  by (simp_all add: undisturbed_def)

lemma file_init_prefix [simp]: "prefix (trace s) (trace (nih_file_init E s))"
  by (simp add: nih_file_init_def Let_def split: sum.splits)

lemma free_fw_prefix [simp]: "prefix (trace s) (trace (nih_free_fw s w))"
  by (simp add: free_fw_trace)

lemma file_init_undisturbed: "undisturbed s (nih_file_init E s)"
  by (simp add: undisturbed_def file_init_keeps_fd)

lemma file_add_watch_step:
  assumes "nih_file_add_watch E s parent path events watcher data = Some (s', r)"
    and "0 \<le> inotify_fd s"
  shows "undisturbed s s'"
proof -
  have i: "nih_file_init E s = s" using assms(2) by (rule file_init_keeps_fd)
  have ev: "events \<noteq> 0" using assms(1) by (auto simp add: nih_file_add_watch_def)
  show ?thesis
  proof (cases "sys_alloc E (allocs s)")
    case False
    with assms i ev have "s' = nih_error_raise_system (s\<lparr>allocs := Suc (allocs s), errno := ENOMEM\<rparr>)"
      by (auto simp add: nih_file_add_watch_def Let_def nih_new_def)
    then show ?thesis by (simp add: undisturbed_def)
  next
    case al: True
    let ?w = "allocs s"
    show ?thesis
    proof (cases "sys_inotify_add_watch E path events")
      case (Inl e)
      with assms i ev al show ?thesis
        by (auto simp add: nih_file_add_watch_def Let_def nih_new_def undisturbed_def
              free_fw_list free_fw_trace releases_def free_fw_removals free_fw_dw_heap add_child_heap
              filter_removeAll_fresh split: option.splits)
    next
      case (Inr d)
      with assms i ev al show ?thesis
        by (auto simp add: nih_file_add_watch_def Let_def nih_new_def undisturbed_def
              free_fw_list free_fw_trace releases_def free_fw_removals free_fw_dw_heap add_child_heap
              filter_removeAll_fresh split: option.splits if_splits)
    qed
  qed
qed

lemma file_add_watch_undisturbed:
  assumes "nih_file_add_watch E s parent path events watcher data = Some (s', r)"
  shows "undisturbed s s'"
proof (cases "0 \<le> inotify_fd s")
  case True
  with assms show ?thesis by (rule file_add_watch_step)
next
  case False
  let ?s1 = "nih_file_init E s"
  have ev: "events \<noteq> 0" using assms(1) by (auto simp add: nih_file_add_watch_def)
  show ?thesis
  proof (cases "0 \<le> inotify_fd ?s1")
    case f: False
    with assms ev have "s' = nih_error_raise_system ?s1"
      by (auto simp add: nih_file_add_watch_def Let_def)
    with file_init_undisturbed [of s E] show ?thesis by (simp add: undisturbed_simple)
  next
    case t: True
    then have "nih_file_init E ?s1 = ?s1" by (rule file_init_keeps_fd)
    with assms ev have "nih_file_add_watch E ?s1 parent path events watcher data = Some (s', r)"
      by (simp add: nih_file_add_watch_def Let_def)
    from file_add_watch_step [OF this t] file_init_undisturbed [of s E]
    show ?thesis using undisturbed_trans by blast
  qed
qed

lemma visitor_undisturbed:
  assumes "nih_dir_add_file_watch E watch s p = Some (s', r)"
  shows "undisturbed s s'"
proof -
  from assms obtain s1 r1 where
    a: "nih_file_add_watch E s (Some watch) p DIR_EVENTS Nih_dir_watcher watch = Some (s1, r1)"
    by (auto simp add: nih_dir_add_file_watch_def split: option.splits)
  from file_add_watch_undisturbed [OF a] a assms show ?thesis
    by (cases r1)
       (auto simp add: nih_dir_add_file_watch_def nih_error_get_def undisturbed_simple
          split: option.splits)
qed

lemma walk_undisturbed:
  assumes "nih_dir_walk (nih_dir_add_file_watch E watch) s path node types filt = Some (s', r)"
  shows "undisturbed s s'"
proof (rule walk_preserves(1) [where P = "undisturbed s" and V = "nih_dir_add_file_watch E watch",
        OF _ _ _ undisturbed_refl assms])
  show "undisturbed s (x\<lparr>errno := e\<rparr>)" if "undisturbed s x" for x e
    using that by (rule undisturbed_simple)
  show "undisturbed s (nih_error_raise_system x)" if "undisturbed s x" for x
    using that by (rule undisturbed_simple)
  show "undisturbed s x'"
    if "undisturbed s x" "nih_dir_add_file_watch E watch x p = Some (x', r)" for x p x' r
    using that visitor_undisturbed undisturbed_trans by blast
qed

lemma since_append:
  assumes "prefix (trace s) (trace t)" and "prefix (trace t) (trace u)"
  shows "since s u = since s t @ since t u"
proof -
  from assms obtain a b where "trace t = trace s @ a" "trace u = trace t @ b"
    by (auto simp add: prefix_def)
  then show ?thesis by (simp add: since_def)
qed

lemma since_emit [simp]: "since s (emit a s) = [a]"
  by (simp add: since_def)

lemma since_same [simp]: "since s s = []"
  by (simp add: since_def)

lemma undisturbed_prefix: "undisturbed s t \<Longrightarrow> prefix (trace s) (trace t)"
  by (simp add: undisturbed_def)

lemma file_add_watch_raised:
  assumes "nih_file_add_watch E s parent path events watcher data = Some (s', Some w)"
  shows "raised s' = raised s"
  using assms
  by (auto simp add: nih_file_add_watch_def Let_def nih_new_def split: if_splits sum.splits)

lemma visitor_raised:
  assumes "nih_dir_add_file_watch E watch s p = Some (s', r)" and "raised s = None"
  shows "raised s' = None"
proof -
  from assms obtain s1 r1 where
    a: "nih_file_add_watch E s (Some watch) p DIR_EVENTS Nih_dir_watcher watch = Some (s1, r1)"
    by (auto simp add: nih_dir_add_file_watch_def split: option.splits)
  show ?thesis
  proof (cases r1)
    case None
    with a assms show ?thesis
      by (auto simp add: nih_dir_add_file_watch_def nih_error_get_def split: option.splits)
  next
    case (Some w)
    with a assms file_add_watch_raised [of E s "Some watch" p DIR_EVENTS Nih_dir_watcher watch s1 w]
    show ?thesis by (auto simp add: nih_dir_add_file_watch_def)
  qed
qed

lemma file_add_watch_refused:
  assumes "refused E path"
  shows "\<exists>s1. nih_file_add_watch E s parent path DIR_EVENTS watcher data = Some (s1, None)"
  using assms DIR_EVENTS_nonzero
  by (auto simp add: refused_def nih_file_add_watch_def Let_def nih_new_def split: sum.splits)

lemma visitor_refused:
  assumes "refused E p" and "nih_dir_add_file_watch E watch s p = Some (s', r)"
  shows "since s s' \<noteq> [] \<and> last (since s s') = Log_warn p"
proof -
  from file_add_watch_refused [OF assms(1)] obtain s1 where
    a: "nih_file_add_watch E s (Some watch) p DIR_EVENTS Nih_dir_watcher watch = Some (s1, None)"
    by blast
  from visitor_on_failure [OF a] assms(2)
  have s': "s' = emit (Log_warn p) (s1\<lparr>raised := None\<rparr>)" by simp
  have "prefix (trace s) (trace s1)"
    using file_add_watch_undisturbed [OF a] by (rule undisturbed_prefix)
  then obtain acts where "trace s1 = trace s @ acts" by (auto simp add: prefix_def)
  with s' show ?thesis by (simp add: since_def)
qed

lemma walk_preserves_ok:
  assumes E: "\<And>s e. P s \<Longrightarrow> P (s\<lparr>errno := e\<rparr>)"
  shows "(\<And>s p s' r. P s \<Longrightarrow> V s p = Some (s', r) \<Longrightarrow> P s') \<Longrightarrow> P s
           \<Longrightarrow> nih_dir_walk V s path node types filt = Some (s', r) \<Longrightarrow> 0 \<le> r \<Longrightarrow> P s'"
    and "(\<And>s p s' r. P s \<Longrightarrow> V s p = Some (s', r) \<Longrightarrow> P s') \<Longrightarrow> P s
           \<Longrightarrow> walk_entries V s path ents types filt ret = Some (s', r) \<Longrightarrow> 0 \<le> r \<Longrightarrow> P s'"
proof (induction V s path node types filt and V s path ents types filt ret
       arbitrary: s' r and s' r rule: nih_dir_walk_walk_entries.induct)
  case (1 V s path st ds types filt)
  show ?case
  proof (cases ds)
    case (Inl e)
    with "1.prems"(3,4) show ?thesis by (auto split: if_splits)
  next
    case (Inr ents)
    from "1.prems"(3) have ty: "types \<noteq> 0" by (auto split: if_splits)
    with "1.prems"(3) Inr have "walk_entries V s path ents types filt 0 = Some (s', r)" by simp
    from "1.IH" [OF ty Inr "1.prems"(1) "1.prems"(2) this "1.prems"(4)] show ?thesis .
  qed
next
  case (2 V s path types filt ret)
  then show ?case by simp
next
  case (3 V s path name child rest types filt ret)
  note run = \<open>walk_entries V s path ((name, child) # rest) types filt ret = Some (s', r)\<close>
  note Ps = \<open>P s\<close>
  note Vp = "3.prems"(1)
  note nn = \<open>0 \<le> r\<close>
  show ?case
  proof (cases "name = ''.'' \<or> name = ''..''")
    case True
    then show ?thesis using "3.IH"(1) [OF True Vp Ps _ nn] run by simp
  next
    case nd: False
    let ?x = "path_join path name"
    show ?thesis
    proof (cases "filtered filt ?x")
      case True
      then show ?thesis
        using "3.IH"(2) [OF nd refl True Vp Ps _ nn] run nd by (simp add: Let_def)
    next
      case nf: False
      show ?thesis
      proof (cases "st_mode child")
        case (Inl a)
        then show ?thesis
          using "3.IH"(3) [OF nd refl nf Inl Vp E [OF Ps] _ nn] run nd nf by (simp add: Let_def)
      next
        case (Inr b)
        from run nd nf Inr obtain s1 r1 where
          v: "(if b AND types \<noteq> 0 then V s ?x else Some (s, ret)) = Some (s1, r1)"
          by (auto simp add: Let_def split: option.splits)
        have P1: "P s1"
          using v Ps Vp by (auto split: if_splits)
        have r1: "\<not> r1 < 0"
        proof
          assume "r1 < 0"
          with run nd nf Inr v have "r = r1" by (simp add: Let_def)
          with nn \<open>r1 < 0\<close> show False by simp
        qed
        from run nd nf Inr v r1 obtain s2 r2 where
          w: "(if S_ISDIR b then nih_dir_walk V s1 ?x child types filt else Some (s1, r1))
                = Some (s2, r2)"
          by (auto simp add: Let_def split: option.splits)
        have r2: "\<not> r2 < 0"
        proof
          assume "r2 < 0"
          with run nd nf Inr v r1 w have "r = r2" by (simp add: Let_def)
          with nn \<open>r2 < 0\<close> show False by simp
        qed
        have P2: "P s2"
        proof (cases "S_ISDIR b")
          case True
          with w have "nih_dir_walk V s1 ?x child types filt = Some (s2, r2)" by simp
          from "3.IH"(4) [OF nd refl nf Inr v refl r1 True Vp P1 this] r2
          show ?thesis by simp
        next
          case False
          with w P1 show ?thesis by simp
        qed
        have "walk_entries V s2 path rest types filt r2 = Some (s', r)"
          using run nd nf Inr v r1 w r2 by (simp add: Let_def)
        from "3.IH"(5) [OF nd refl nf Inr v refl r1 w refl r2 Vp P2 this nn]
        show ?thesis .
      qed
    qed
  qed
qed

lemma walk_raised:
  assumes "nih_dir_walk (nih_dir_add_file_watch E watch) s path node types filt = Some (s', r)"
    and "0 \<le> r" and "raised s = None"
  shows "raised s' = None"
proof (rule walk_preserves_ok(1) [where P = "\<lambda>x. raised x = None"
        and V = "nih_dir_add_file_watch E watch", OF _ _ assms(3) assms(1) assms(2)])
  show "raised (x\<lparr>errno := e\<rparr>) = None" if "raised x = None" for x e
    using that by simp
  show "raised x' = None"
    if "raised x = None" "nih_dir_add_file_watch E watch x p = Some (x', r)" for x p x' r
    using that visitor_raised by blast
qed

lemma walk_entries_undisturbed:
  assumes "walk_entries (nih_dir_add_file_watch E watch) s path ents types filt ret = Some (s', r)"
  shows "undisturbed s s'"
proof (rule walk_preserves(2) [where P = "undisturbed s" and V = "nih_dir_add_file_watch E watch",
        OF _ _ _ undisturbed_refl assms])
  show "undisturbed s (x\<lparr>errno := e\<rparr>)" if "undisturbed s x" for x e
    using that by (rule undisturbed_simple)
  show "undisturbed s (nih_error_raise_system x)" if "undisturbed s x" for x
    using that by (rule undisturbed_simple)
  show "undisturbed s x'"
    if "undisturbed s x" "nih_dir_add_file_watch E watch x p = Some (x', r)" for x p x' r
    using that visitor_undisturbed undisturbed_trans by blast
qed

lemma S_ISDIR_bit: "S_ISDIR m \<Longrightarrow> m AND S_IFDIR \<noteq> 0"
proof -
  assume "S_ISDIR m"
  then have a: "m AND 0xF000 = 0x4000" by (simp add: S_ISDIR_def S_IFMT_def S_IFDIR_def)
  have "m AND 0x4000 = (m AND 0xF000) AND 0x4000"
    by (simp add: and.assoc)
  with a show ?thesis by (simp add: S_IFDIR_def)
qed

lemma walk_entries_warns:
  assumes "walk_entries (nih_dir_add_file_watch E watch) s path ents S_IFDIR filt ret = Some (s', r)"
    and "0 \<le> r" and "nc \<in> set ents" and "refused_dir E filt path nc"
  shows "Log_warn (path_join path (fst nc)) \<in> set (since s s')"
  using assms
proof (induction ents arbitrary: s ret)
  case Nil
  then show ?case by simp
next
  case (Cons hd rest)
  let ?V = "nih_dir_add_file_watch E watch"
  obtain name child where hd: "hd = (name, child)" by (cases hd)
  note run = Cons.prems(1) [unfolded hd]
  note nn = Cons.prems(2)
  note rd = Cons.prems(4)
  have in_rest: "nc \<in> set rest" if "nc \<noteq> (name, child)"
    using that Cons.prems(3) hd by simp
  show ?case
  proof (cases "name = ''.'' \<or> name = ''..''")
    case True
    with rd have "nc \<noteq> (name, child)" by (auto simp add: refused_dir_def)
    from Cons.IH [OF _ nn in_rest [OF this] rd, of s ret] run True show ?thesis by simp
  next
    case nd: False
    let ?x = "path_join path name"
    show ?thesis
    proof (cases "filtered filt ?x")
      case True
      with rd have "nc \<noteq> (name, child)" by (auto simp add: refused_dir_def)
      from Cons.IH [OF _ nn in_rest [OF this] rd, of s ret] run nd True show ?thesis
        by (simp add: Let_def)
    next
      case nf: False
      show ?thesis
      proof (cases "st_mode child")
        case (Inl a)
        with rd have "nc \<noteq> (name, child)" by (auto simp add: refused_dir_def)
        from Cons.IH [OF _ nn in_rest [OF this] rd, of "s\<lparr>errno := a\<rparr>" ret] run nd nf Inl
        show ?thesis by (simp add: Let_def since_def)
      next
        case (Inr b)
        from run nd nf Inr obtain s1 r1 where
          v: "(if b AND S_IFDIR \<noteq> 0 then ?V s ?x else Some (s, ret)) = Some (s1, r1)"
          by (auto simp add: Let_def split: option.splits)
        have r1: "\<not> r1 < 0"
        proof
          assume "r1 < 0"
          with run nd nf Inr v have "r = r1" by (simp add: Let_def)
          with nn \<open>r1 < 0\<close> show False by simp
        qed
        from run nd nf Inr v r1 obtain s2 r2 where
          w: "(if S_ISDIR b then nih_dir_walk ?V s1 ?x child S_IFDIR filt else Some (s1, r1))
                = Some (s2, r2)"
          by (auto simp add: Let_def split: option.splits)
        have r2: "\<not> r2 < 0"
        proof
          assume "r2 < 0"
          with run nd nf Inr v r1 w have "r = r2" by (simp add: Let_def)
          with nn \<open>r2 < 0\<close> show False by simp
        qed
        have tl: "walk_entries ?V s2 path rest S_IFDIR filt r2 = Some (s', r)"
          using run nd nf Inr v r1 w r2 by (simp add: Let_def)
        have p1: "prefix (trace s) (trace s1)"
          using v visitor_undisturbed [of E watch s ?x s1 r1]
          by (auto simp add: undisturbed_def split: if_splits)
        have p2: "prefix (trace s1) (trace s2)"
          using w walk_undisturbed [of E watch s1 ?x child S_IFDIR filt s2 r2]
          by (auto simp add: undisturbed_def split: if_splits)
        have p3: "prefix (trace s2) (trace s')"
          using walk_entries_undisturbed [OF tl] by (rule undisturbed_prefix)
        have p12: "prefix (trace s) (trace s2)" using p1 p2 by (rule prefix_order.trans)
        have sp: "since s s' = since s s1 @ since s1 s2 @ since s2 s'"
          using since_append [OF p12 p3] since_append [OF p1 p2] by simp
        show ?thesis
        proof (cases "nc = (name, child)")
          case True
          with rd Inr have dir: "S_ISDIR b" and rf: "refused E ?x"
            by (auto simp add: refused_dir_def)
          from v S_ISDIR_bit [OF dir] have "?V s ?x = Some (s1, r1)" by simp
          from visitor_refused [OF rf this] have "Log_warn ?x \<in> set (since s s1)"
            using last_in_set by metis
          with sp True show ?thesis by simp
        next
          case False
          from Cons.IH [OF tl nn in_rest [OF False] rd] sp show ?thesis by simp
        qed
      qed
    qed
  qed
qed

lemma walk_warns:
  assumes "nih_dir_walk (nih_dir_add_file_watch E watch) s path node S_IFDIR filt = Some (s', r)"
    and "0 \<le> r"
  shows "warned E filt path node s s'"
proof (cases node)
  case (Fsnode st ds)
  show ?thesis
  proof (cases ds)
    case (Inl e)
    with Fsnode show ?thesis by (simp add: warned_def)
  next
    case (Inr ents)
    with assms(1) Fsnode
    have "walk_entries (nih_dir_add_file_watch E watch) s path ents S_IFDIR filt 0 = Some (s', r)"
      by (simp add: S_IFDIR_nonzero)
    from walk_entries_warns [OF this assms(2)] Fsnode Inr show ?thesis
      by (simp add: warned_def)
  qed
qed

lemma warned_mono:
  assumes "warned E filt path node t u" and "prefix (trace s) (trace t)"
    and "prefix (trace t) (trace u)"
  shows "warned E filt path node s u"
  using assms(1) since_append [OF assms(2,3)]
  by (auto simp add: warned_def split: sum.splits)

lemma warned_raised [simp]:
  "warned E filt path node s (t\<lparr>raised := r\<rparr>) = warned E filt path node s t"
  by (simp add: warned_def since_def cong: sum.case_cong)

lemma dir_add_watch_result:
  assumes run: "nih_dir_add_watch E s path subdirs filt ch mh dh data = Some (s', Some watch)"
  shows "watch = allocs s" and "undisturbed s s'" and "calls s' = calls s"
    and "raised s = None \<longrightarrow> raised s' = None"
    and "\<exists>d. 0 \<le> d \<and> sys_inotify_add_watch E path DIR_EVENTS = Inr d
           \<and> fw_heap s' (Suc (allocs s)) =
               Some \<lparr>fw_wd = d, fw_path = path, fw_events = DIR_EVENTS,
                     fw_watcher = Nih_dir_watcher, fw_data = allocs s,
                     fw_parent = Some (allocs s), fw_destructor = True\<rparr>"
    and "Suc (allocs s) \<in> set (file_watches s')"
    and "dw_kept (Suc (Suc (allocs s)))
           \<lparr>dw_path = path, dw_subdirs = subdirs, dw_filter = filt, dw_create_handler = ch,
            dw_modify_handler = mh, dw_delete_handler = dh, dw_data = data,
            dw_children = [Suc (allocs s)]\<rparr>
           (dw_heap s' (allocs s))"
    and "subdirs \<longrightarrow> warned E filt path (sys_fs E path) s s'"
proof -
  from run obtain m where m: "st_mode (sys_fs E path) = Inr m" "S_ISDIR m"
    by (auto simp add: nih_dir_add_watch_def split: sum.splits if_splits)
  let ?D = "\<lparr>dw_path = path, dw_subdirs = subdirs, dw_filter = filt, dw_create_handler = ch,
             dw_modify_handler = mh, dw_delete_handler = dh, dw_data = data, dw_children = []\<rparr>"
  let ?s1 = "s\<lparr>allocs := Suc (allocs s)\<rparr>"
  let ?s2 = "?s1\<lparr>dw_heap := (dw_heap ?s1)(allocs s \<mapsto> ?D)\<rparr>"
  from run m have al: "sys_alloc E (allocs s)" and wa: "watch = allocs s"
    by (auto simp add: nih_dir_add_watch_def nih_new_def Let_def
          split: if_splits option.splits prod.splits)
  from run m al obtain s3 w where
    a: "nih_file_add_watch E ?s2 (Some watch) path DIR_EVENTS Nih_dir_watcher watch = Some (s3, Some w)"
    using wa
    by (auto simp add: nih_dir_add_watch_def nih_new_def Let_def
          split: if_splits option.splits prod.splits)
  have fin: "(subdirs \<and> (\<exists>r. 0 \<le> r
                \<and> nih_dir_walk (nih_dir_add_file_watch E watch) s3 path (sys_fs E path) S_IFDIR filt
                    = Some (s', r)))
             \<or> (\<not> subdirs \<and> s' = s3)"
    using run m al a wa
    by (cases subdirs)
       (auto simp add: nih_dir_add_watch_def nih_new_def Let_def split: option.splits if_splits)
  have u2: "undisturbed s ?s2"
    by (simp add: undisturbed_def)
  have u3: "undisturbed ?s2 s3" using a by (rule file_add_watch_undisturbed)
  have u4: "undisturbed s3 s'"
    using fin walk_undisturbed by auto
  have u23: "undisturbed s s3" using u2 u3 by (rule undisturbed_trans)
  show "watch = allocs s" by (rule wa)
  show u: "undisturbed s s'" using u23 u4 by (rule undisturbed_trans)
  have "calls s3 = calls s" using file_add_watch_frame [OF a] by simp
  moreover have "calls s' = calls s3" using fin walk_frame by auto
  ultimately show "calls s' = calls s" by simp
  have "raised s3 = raised s" using file_add_watch_raised [OF a] by simp
  moreover have "raised s3 = None \<longrightarrow> raised s' = None" using fin walk_raised by auto
  ultimately show "raised s = None \<longrightarrow> raised s' = None" by simp
  have w: "w = Suc (allocs s)" and a3: "allocs s3 = Suc (Suc (allocs s))"
    using file_add_watch_new(3,4) [OF a] by simp_all
  from a have kd: "\<exists>d. 0 \<le> d \<and> sys_inotify_add_watch E path DIR_EVENTS = Inr d
      \<and> fw_heap s3 w = Some \<lparr>fw_wd = d, fw_path = path, fw_events = DIR_EVENTS,
                     fw_watcher = Nih_dir_watcher, fw_data = watch,
                     fw_parent = Some watch, fw_destructor = True\<rparr>"
    by (auto simp add: nih_file_add_watch_def Let_def nih_new_def split: if_splits sum.splits)
  have h4: "fw_heap s' w = fw_heap s3 w"
    using u4 w a3 by (simp add: undisturbed_def)
  with kd w wa show "\<exists>d. 0 \<le> d \<and> sys_inotify_add_watch E path DIR_EVENTS = Inr d
           \<and> fw_heap s' (Suc (allocs s)) =
               Some \<lparr>fw_wd = d, fw_path = path, fw_events = DIR_EVENTS,
                     fw_watcher = Nih_dir_watcher, fw_data = allocs s,
                     fw_parent = Some (allocs s), fw_destructor = True\<rparr>"
    by simp
  have "w \<in> set (filter (\<lambda>x. x < allocs s3) (file_watches s3))"
    using file_add_watch_new(2) [OF a] w a3 by simp
  also have "filter (\<lambda>x. x < allocs s3) (file_watches s3) = filter (\<lambda>x. x < allocs s3) (file_watches s')"
    using u4 by (simp add: undisturbed_def)
  finally show "Suc (allocs s) \<in> set (file_watches s')" using w by simp
  have d3: "dw_heap s3 (allocs s) = Some (?D\<lparr>dw_children := [Suc (allocs s)]\<rparr>)"
    using a wa
    by (auto simp add: nih_file_add_watch_def Let_def nih_new_def add_child_def
          split: if_splits sum.splits)
  from u4 d3 a3 show "dw_kept (Suc (Suc (allocs s)))
           \<lparr>dw_path = path, dw_subdirs = subdirs, dw_filter = filt, dw_create_handler = ch,
            dw_modify_handler = mh, dw_delete_handler = dh, dw_data = data,
            dw_children = [Suc (allocs s)]\<rparr>
           (dw_heap s' (allocs s))"
    by (simp add: undisturbed_def)
  show "subdirs \<longrightarrow> warned E filt path (sys_fs E path) s s'"
  proof
    assume subdirs
    with fin obtain r where r: "0 \<le> r"
      and wk: "nih_dir_walk (nih_dir_add_file_watch E watch) s3 path (sys_fs E path) S_IFDIR filt
                    = Some (s', r)" by auto
    from walk_warns [OF wk r] undisturbed_prefix [OF u23] undisturbed_prefix [OF u4]
    show "warned E filt path (sys_fs E path) s s'" by (rule warned_mono)
  qed
qed

lemma dir_watcher_result:
  assumes run: "nih_dir_watcher E s dw fw events cookie (Some n) = Some s'"
    and D: "dw_heap s dw = Some D" and F: "fw_heap s fw = Some F"
    and self: "events AND IN_IGNORED = 0 \<and> events AND IN_MOVE_SELF = 0"
  shows "undisturbed s s'" and "raised s = None \<longrightarrow> raised s' = None"
    and "discovers E D F events n \<and> refused E (path_join (fw_path F) n)
           \<longrightarrow> Log_warn (path_join (fw_path F) n) \<in> set (since s s')"
    and "discovers E D F events n \<and> opens_all (sys_fs E (path_join (fw_path F) n))
           \<longrightarrow> warned E (dw_filter D) (path_join (fw_path F) n) (sys_fs E (path_join (fw_path F) n)) s s'"
proof -
  have ev: "events \<noteq> 0" using run D F by (auto simp add: nih_dir_watcher_def)
  let ?p = "path_join (fw_path F) n"
  let ?s1 = "case dw_create_handler D of None \<Rightarrow> s
             | Some h \<Rightarrow> emit (Call_create_handler h (dw_data D) dw ?p) s"
  have u1: "undisturbed s ?s1" and r1: "raised ?s1 = raised s"
    by (auto simp add: undisturbed_simple split: option.splits)
  have "undisturbed s s' \<and> (raised s = None \<longrightarrow> raised s' = None)
      \<and> (discovers E D F events n \<and> refused E ?p \<longrightarrow> Log_warn ?p \<in> set (since s s'))
      \<and> (discovers E D F events n \<and> opens_all (sys_fs E ?p)
           \<longrightarrow> warned E (dw_filter D) ?p (sys_fs E ?p) s s')"
  proof (cases "discovers E D F events n")
    case False
    with run D F ev self have "s' = s \<or> s' = ?s1
        \<or> s' = (case dw_modify_handler D of None \<Rightarrow> s
                 | Some h \<Rightarrow> emit (Call_modify_handler h (dw_data D) dw ?p) s)
        \<or> s' = (case dw_delete_handler D of None \<Rightarrow> s
                 | Some h \<Rightarrow> emit (Call_delete_handler h (dw_data D) dw (Some ?p)) s)"
      by (auto simp add: nih_dir_watcher_def discovers_def Let_def split: if_splits)
    with False show ?thesis
      by (auto simp add: undisturbed_simple split: option.splits)
  next
    case disc: True
    with run D F ev obtain s2 r2 s3 r3 where
      v: "nih_dir_add_file_watch E dw ?s1 ?p = Some (s2, r2)"
      and w: "nih_dir_walk (nih_dir_add_file_watch E dw) s2 ?p (sys_fs E ?p) S_IFDIR (dw_filter D)
               = Some (s3, r3)"
      and fin: "(if r3 < 0 then (case nih_error_get s3 of None \<Rightarrow> None | Some (s4, err) \<Rightarrow> Some s4)
                 else Some s3) = Some s'"
      by (auto simp add: nih_dir_watcher_def discovers_def Let_def split: option.splits)
    have u2: "undisturbed ?s1 s2" using v by (rule visitor_undisturbed)
    have u3: "undisturbed s2 s3" using w by (rule walk_undisturbed)
    have f: "s' = s3 \<or> s' = s3\<lparr>raised := None\<rparr>"
      using fin by (auto simp add: nih_error_get_def split: if_splits option.splits)
    have u12: "undisturbed s s2" using u1 u2 by (rule undisturbed_trans)
    have u13: "undisturbed s s3" using u12 u3 by (rule undisturbed_trans)
    have u: "undisturbed s s'" using f u13 by (auto simp add: undisturbed_simple)
    have ra: "raised s = None \<longrightarrow> raised s' = None"
    proof (cases "r3 < 0")
      case True
      with fin show ?thesis by (auto simp add: nih_error_get_def split: option.splits)
    next
      case False
      with fin have "s' = s3" by simp
      with walk_raised [OF w] False visitor_raised [OF v] r1 show ?thesis by simp
    qed
    have tr: "trace s' = trace s3" using f by auto
    have sp: "since s s' = since s ?s1 @ since ?s1 s2 @ since s2 s3"
      using since_append [OF undisturbed_prefix [OF u12] undisturbed_prefix [OF u3]]
        since_append [OF undisturbed_prefix [OF u1] undisturbed_prefix [OF u2]] tr
      by (simp add: since_def)
    have wn: "Log_warn ?p \<in> set (since s s')" if "refused E ?p"
    proof -
      from visitor_refused [OF that v] have "Log_warn ?p \<in> set (since ?s1 s2)"
        using last_in_set by metis
      with sp show ?thesis by simp
    qed
    have wd: "warned E (dw_filter D) ?p (sys_fs E ?p) s s'" if "opens_all (sys_fs E ?p)"
    proof -
      from visitor_walk [of E dw s2 ?p "sys_fs E ?p" "dw_filter D"] w that
      have "0 \<le> r3" by auto
      from walk_warns [OF w this] undisturbed_prefix [OF u12] undisturbed_prefix [OF u3]
      have "warned E (dw_filter D) ?p (sys_fs E ?p) s s3" by (rule warned_mono)
      with f show ?thesis by auto
    qed
    from u ra wn wd show ?thesis by blast
  qed
  then show "undisturbed s s'" and "raised s = None \<longrightarrow> raised s' = None"
    and "discovers E D F events n \<and> refused E (path_join (fw_path F) n)
           \<longrightarrow> Log_warn (path_join (fw_path F) n) \<in> set (since s s')"
    and "discovers E D F events n \<and> opens_all (sys_fs E (path_join (fw_path F) n))
           \<longrightarrow> warned E (dw_filter D) (path_join (fw_path F) n) (sys_fs E (path_join (fw_path F) n)) s s'"
    by simp_all
qed

text \<open>
  C8. A watch that cannot be added to a sub-directory costs a warning only, and nothing
  that was there is disturbed. The visitor \<^verbatim>\<open>nih_dir_add_file_watch\<close> returns 0
  whatever happens; when the watch could not be added, it has fetched the error and
  logged the warning, the list of watches is as before, and a refusal of the kernel ends
  in that warning. A walk with this visitor over a tree whose directories can all be
  opened returns 0, and every sub-directory that the kernel refuses has had its warning.
  \<^verbatim>\<open>nih_dir_add_watch\<close> succeeds whenever the root can be watched and the directories
  opened, whatever the kernel answers for the sub-directories: the watch on the root is
  registered with the descriptor of the kernel, the directory watch is allocated with
  the arguments of the call and owns that watch, and the refused sub-directories have
  had their warnings. \<^verbatim>\<open>nih_dir_watcher\<close> returns from every named event, having called
  the handlers of that event and no others; when the event does not end the watch, the
  same holds for a new directory that the kernel refuses and for what lies below it.
  In each case the blocks, the watches and their order in the list, the directory
  watches and the children they own are as before, the kernel has not been asked to
  remove any watch, the user has been called for nothing else, and no error is left
  raised.
\<close>

theorem subdirectory_watch_failure_is_warning:
  "(\<exists>s'. nih_dir_add_file_watch E watch s path = Some (s', 0)
      \<and> undisturbed s s' \<and> calls s' = calls s \<and> (raised s = None \<longrightarrow> raised s' = None)
      \<and> (\<forall>s1. nih_file_add_watch E s (Some watch) path DIR_EVENTS Nih_dir_watcher watch
                 = Some (s1, None)
            \<longrightarrow> s' = emit (Log_warn path) (s1\<lparr>raised := None\<rparr>)
                \<and> file_watches s' = file_watches s)
      \<and> (refused E path \<longrightarrow> since s s' \<noteq> [] \<and> last (since s s') = Log_warn path))
   \<and> (opens_all node \<longrightarrow>
        (\<exists>s'. nih_dir_walk (nih_dir_add_file_watch E watch) s path node S_IFDIR filt = Some (s', 0)
           \<and> undisturbed s s' \<and> calls s' = calls s \<and> (raised s = None \<longrightarrow> raised s' = None)
           \<and> warned E filt path node s s'))
   \<and> (st_mode (sys_fs E path) = Inr m \<and> S_ISDIR m \<and> opens_all (sys_fs E path)
        \<and> sys_alloc E (allocs s) \<and> sys_alloc E (Suc (allocs s)) \<and> fd_ready E s
        \<and> sys_inotify_add_watch E path DIR_EVENTS = Inr d \<and> 0 \<le> d
      \<longrightarrow> (\<exists>s'. nih_dir_add_watch E s path subdirs filt ch mh dh data = Some (s', Some (allocs s))
             \<and> undisturbed s s' \<and> calls s' = calls s \<and> (raised s = None \<longrightarrow> raised s' = None)
             \<and> fw_heap s' (Suc (allocs s)) =
                   Some \<lparr>fw_wd = d, fw_path = path, fw_events = DIR_EVENTS,
                         fw_watcher = Nih_dir_watcher, fw_data = allocs s,
                         fw_parent = Some (allocs s), fw_destructor = True\<rparr>
             \<and> Suc (allocs s) \<in> set (file_watches s')
             \<and> dw_kept (Suc (Suc (allocs s)))
                   \<lparr>dw_path = path, dw_subdirs = subdirs, dw_filter = filt,
                    dw_create_handler = ch, dw_modify_handler = mh, dw_delete_handler = dh,
                    dw_data = data, dw_children = [Suc (allocs s)]\<rparr>
                   (dw_heap s' (allocs s))
             \<and> (subdirs \<longrightarrow> warned E filt path (sys_fs E path) s s')))
   \<and> (dw_heap s dw = Some D \<and> fw_heap s fw = Some F \<and> events \<noteq> 0
      \<longrightarrow> (\<exists>s'. nih_dir_watcher E s dw fw events cookie (Some n) = Some s'
             \<and> calls s' = calls s @ handler_calls D dw F events (Some n)
             \<and> (events AND IN_IGNORED = 0 \<and> events AND IN_MOVE_SELF = 0
                  \<longrightarrow> undisturbed s s' \<and> (raised s = None \<longrightarrow> raised s' = None)
                      \<and> (discovers E D F events n \<and> refused E (path_join (fw_path F) n)
                           \<longrightarrow> Log_warn (path_join (fw_path F) n) \<in> set (since s s'))
                      \<and> (discovers E D F events n \<and> opens_all (sys_fs E (path_join (fw_path F) n))
                           \<longrightarrow> warned E (dw_filter D) (path_join (fw_path F) n)
                                 (sys_fs E (path_join (fw_path F) n)) s s'))))"
proof (intro conjI impI)
  obtain s' where v: "nih_dir_add_file_watch E watch s path = Some (s', 0)"
    using visitor_total by blast
  have f: "s' = emit (Log_warn path) (s1\<lparr>raised := None\<rparr>) \<and> file_watches s' = file_watches s"
    if a: "nih_file_add_watch E s (Some watch) path DIR_EVENTS Nih_dir_watcher watch = Some (s1, None)"
    for s1
    using v visitor_on_failure [OF a] file_add_watch_null(2) [OF a] by auto
  have u: "undisturbed s s'" using v by (rule visitor_undisturbed)
  have c: "calls s' = calls s" using visitor_frame [OF v] by simp
  have ra: "raised s = None \<longrightarrow> raised s' = None" using visitor_raised [OF v] by simp
  have rf: "refused E path \<longrightarrow> since s s' \<noteq> [] \<and> last (since s s') = Log_warn path"
    using visitor_refused [OF _ v] by simp
  have fa: "\<forall>s1. nih_file_add_watch E s (Some watch) path DIR_EVENTS Nih_dir_watcher watch
                 = Some (s1, None)
            \<longrightarrow> s' = emit (Log_warn path) (s1\<lparr>raised := None\<rparr>)
                \<and> file_watches s' = file_watches s"
    using f by blast
  from v u c ra fa rf
  show "\<exists>s'. nih_dir_add_file_watch E watch s path = Some (s', 0)
      \<and> undisturbed s s' \<and> calls s' = calls s \<and> (raised s = None \<longrightarrow> raised s' = None)
      \<and> (\<forall>s1. nih_file_add_watch E s (Some watch) path DIR_EVENTS Nih_dir_watcher watch
                 = Some (s1, None)
            \<longrightarrow> s' = emit (Log_warn path) (s1\<lparr>raised := None\<rparr>)
                \<and> file_watches s' = file_watches s)
      \<and> (refused E path \<longrightarrow> since s s' \<noteq> [] \<and> last (since s s') = Log_warn path)"
    by (intro exI conjI)
next
  assume "opens_all node"
  with visitor_walk [of E watch s path node filt] obtain s' where
    w: "nih_dir_walk (nih_dir_add_file_watch E watch) s path node S_IFDIR filt = Some (s', 0)"
    by auto
  have u: "undisturbed s s'" using w by (rule walk_undisturbed)
  have c: "calls s' = calls s" using walk_frame [OF w] by simp
  have ra: "raised s = None \<longrightarrow> raised s' = None" using walk_raised [OF w] by simp
  have wn: "warned E filt path node s s'" using walk_warns [OF w] by simp
  from w u c ra wn
  show "\<exists>s'. nih_dir_walk (nih_dir_add_file_watch E watch) s path node S_IFDIR filt = Some (s', 0)
           \<and> undisturbed s s' \<and> calls s' = calls s \<and> (raised s = None \<longrightarrow> raised s' = None)
           \<and> warned E filt path node s s'"
    by (intro exI conjI)
next
  assume a: "st_mode (sys_fs E path) = Inr m \<and> S_ISDIR m \<and> opens_all (sys_fs E path)
        \<and> sys_alloc E (allocs s) \<and> sys_alloc E (Suc (allocs s)) \<and> fd_ready E s
        \<and> sys_inotify_add_watch E path DIR_EVENTS = Inr d \<and> 0 \<le> d"
  then obtain s' where
    r: "nih_dir_add_watch E s path subdirs filt ch mh dh data = Some (s', Some (allocs s))"
    using dir_add_watch_succeeds by blast
  note res = dir_add_watch_result [OF r]
  from res(5) a have "fw_heap s' (Suc (allocs s)) =
                   Some \<lparr>fw_wd = d, fw_path = path, fw_events = DIR_EVENTS,
                         fw_watcher = Nih_dir_watcher, fw_data = allocs s,
                         fw_parent = Some (allocs s), fw_destructor = True\<rparr>"
    by auto
  with r res(2,3,4,6,7,8)
  show "\<exists>s'. nih_dir_add_watch E s path subdirs filt ch mh dh data = Some (s', Some (allocs s))
             \<and> undisturbed s s' \<and> calls s' = calls s \<and> (raised s = None \<longrightarrow> raised s' = None)
             \<and> fw_heap s' (Suc (allocs s)) =
                   Some \<lparr>fw_wd = d, fw_path = path, fw_events = DIR_EVENTS,
                         fw_watcher = Nih_dir_watcher, fw_data = allocs s,
                         fw_parent = Some (allocs s), fw_destructor = True\<rparr>
             \<and> Suc (allocs s) \<in> set (file_watches s')
             \<and> dw_kept (Suc (Suc (allocs s)))
                   \<lparr>dw_path = path, dw_subdirs = subdirs, dw_filter = filt,
                    dw_create_handler = ch, dw_modify_handler = mh, dw_delete_handler = dh,
                    dw_data = data, dw_children = [Suc (allocs s)]\<rparr>
                   (dw_heap s' (allocs s))
             \<and> (subdirs \<longrightarrow> warned E filt path (sys_fs E path) s s')"
    by (intro exI conjI)
next
  assume a: "dw_heap s dw = Some D \<and> fw_heap s fw = Some F \<and> events \<noteq> 0"
  then obtain s' where r: "nih_dir_watcher E s dw fw events cookie (Some n) = Some s'"
    using dir_watcher_total [of s dw D fw F events "Some n"] by auto
  from a have D: "dw_heap s dw = Some D" and F: "fw_heap s fw = Some F" by simp_all
  note res = dir_watcher_result [OF r D F]
  have "events AND IN_IGNORED = 0 \<and> events AND IN_MOVE_SELF = 0
                  \<longrightarrow> undisturbed s s' \<and> (raised s = None \<longrightarrow> raised s' = None)
                      \<and> (discovers E D F events n \<and> refused E (path_join (fw_path F) n)
                           \<longrightarrow> Log_warn (path_join (fw_path F) n) \<in> set (since s s'))
                      \<and> (discovers E D F events n \<and> opens_all (sys_fs E (path_join (fw_path F) n))
                           \<longrightarrow> warned E (dw_filter D) (path_join (fw_path F) n)
                                 (sys_fs E (path_join (fw_path F) n)) s s')"
    using res by blast
  with r dir_watcher_calls(1) [OF r D F]
  show "\<exists>s'. nih_dir_watcher E s dw fw events cookie (Some n) = Some s'
             \<and> calls s' = calls s @ handler_calls D dw F events (Some n)
             \<and> (events AND IN_IGNORED = 0 \<and> events AND IN_MOVE_SELF = 0
                  \<longrightarrow> undisturbed s s' \<and> (raised s = None \<longrightarrow> raised s' = None)
                      \<and> (discovers E D F events n \<and> refused E (path_join (fw_path F) n)
                           \<longrightarrow> Log_warn (path_join (fw_path F) n) \<in> set (since s s'))
                      \<and> (discovers E D F events n \<and> opens_all (sys_fs E (path_join (fw_path F) n))
                           \<longrightarrow> warned E (dw_filter D) (path_join (fw_path F) n)
                                 (sys_fs E (path_join (fw_path F) n)) s s'))"
    by (intro exI conjI)
qed

subsection \<open>Filtered paths, and the first witnesses\<close>

lemma filter_watcher_call: "filter is_watcher_call (filter is_call xs) = filter is_watcher_call xs"
proof -
  have "is_watcher_call a \<Longrightarrow> is_call a" for a
    by (cases a) simp_all
  then show ?thesis by (induction xs) auto
qed

lemma watcher_calls_calls: "watcher_calls s = filter is_watcher_call (calls s)"
  by (simp only: watcher_calls_def calls_def filter_watcher_call)

lemma handler_call_filter: "(\<And>h. \<not> P (f h)) \<Longrightarrow> filter P (handler_call x f) = []"
  by (cases x) (simp_all add: handler_call_def)


lemma handler_calls_no_watcher: "filter is_watcher_call (handler_calls D dw F events name) = []"
  by (cases name) (simp_all add: handler_calls_def handler_call_filter)



text \<open>The definitions that a run on a concrete input unfolds.\<close>

lemmas const_defs = DIR_EVENTS_def IN_CREATE_def IN_DELETE_def IN_MODIFY_def IN_MOVE_def
  IN_MOVE_SELF_def IN_MOVED_FROM_def IN_MOVED_TO_def IN_IGNORED_def S_IFMT_def S_IFDIR_def
  S_ISDIR_def ENOMEM_def ENOTDIR_def ENOENT_def

lemmas run_defs = nih_dir_add_watch_def nih_file_add_watch_def nih_file_init_def nih_new_def
  add_child_def del_child_def emit_def nih_error_raise_system_def nih_error_get_def
  nih_list_add_def nih_list_remove_def nih_free_fw_def nih_free_dw_def nih_file_remove_watch_def
  nih_dir_add_file_watch_def nih_alloc_set_destructor_def nih_list_free_def
  path_join_def filtered_def Let_def

lemmas demo_defs = demo_env_def init_state_def demo_r_def demo_d_def demo_x_def


text \<open>
  C7, as stated, fails: the mask of the watch that the construction installs on the
  root does not hold the bit of the invalidated event.
\<close>

theorem root_mask_lacks_ignored:
  "\<exists>s' W. nih_dir_add_watch demo_env init_state ''/r'' False None None None None 0
             = Some (s', Some 0)
      \<and> file_watches s' = [1] \<and> fw_heap s' 1 = Some W \<and> fw_path W = ''/r''
      \<and> \<not> (fw_events W AND IN_IGNORED \<noteq> 0)"
  by (simp add: run_defs demo_defs const_defs)

theorem dir_add_watch_root_mask_witness:
  "\<exists>s'. nih_dir_add_watch demo_env init_state ''/r'' True None (Some 1) (Some 2) (Some 3) 7
           = Some (s', Some 0)
      \<and> (\<exists>w d. fw_heap s' w = Some \<lparr>fw_wd = d, fw_path = ''/r'', fw_events = DIR_EVENTS,
                   fw_watcher = Nih_dir_watcher, fw_data = 0, fw_parent = Some 0,
                   fw_destructor = True\<rparr>
            \<and> 0 \<le> d \<and> w \<in> set (file_watches s')
            \<and> Sys_inotify_add_watch (inotify_fd s') ''/r'' DIR_EVENTS \<in> set (trace s'))"
proof -
  have "\<exists>s'. nih_dir_add_watch demo_env init_state ''/r'' True None (Some 1) (Some 2) (Some 3) 7
           = Some (s', Some 0)"
    by (simp add: run_defs demo_defs const_defs)
  then obtain s' where
    r: "nih_dir_add_watch demo_env init_state ''/r'' True None (Some 1) (Some 2) (Some 3) 7
           = Some (s', Some 0)" ..
  from dir_add_watch_root_mask [OF r] r show ?thesis by blast
qed

subsection \<open>Dispatch of an event, and the release of a sub-directory watch\<close>

lemma call_watcher_calls:
  assumes "call_watcher E s w W event = Some s'"
  shows "watcher_calls s' = watcher_calls s @
           [Call_watcher (fw_watcher W) (fw_data W) w (event_mask event) (event_cookie event)
              (event_name event)]"
proof (cases "fw_watcher W")
  case (User_watcher n)
  with assms show ?thesis
    by (auto simp add: call_watcher_def watcher_calls_def Let_def)
next
  case Nih_dir_watcher
  let ?a = "Call_watcher (fw_watcher W) (fw_data W) w (event_mask event) (event_cookie event)
              (event_name event)"
  from assms Nih_dir_watcher have
    run: "nih_dir_watcher E (emit ?a s) (fw_data W) w (event_mask event) (event_cookie event)
            (event_name event) = Some s'"
    by (simp add: call_watcher_def Let_def)
  then obtain D F where D: "dw_heap (emit ?a s) (fw_data W) = Some D"
    and F: "fw_heap (emit ?a s) w = Some F"
    by (auto simp add: nih_dir_watcher_def split: option.splits)
  from dir_watcher_calls(1) [OF run D F]
  have "filter is_watcher_call (calls s') = filter is_watcher_call (calls s) @ [?a]"
    by (simp add: handler_calls_no_watcher)
  then show ?thesis by (simp add: watcher_calls_calls)
qed

lemma dispatch_no_match:
  "\<forall>w \<in> set ws. \<not> wd_matches s event w \<Longrightarrow> dispatch E s ws event = Some s"
  by (induction ws) (auto simp add: wd_matches_def split: option.splits)

lemma dispatch_first:
  assumes "\<forall>x \<in> set pre. \<not> wd_matches s event x"
    and "fw_heap s w = Some W" and "fw_wd W = event_wd event"
  shows "dispatch E s (pre @ w # post) event = call_watcher E s w W event"
  using assms by (induction pre) (auto simp add: wd_matches_def split: option.splits)

text \<open>
  C1. The loop of \<^verbatim>\<open>nih_file_reader\<close> over the list of watches gives an event to at
  most one watch. When no watch of the list has the descriptor of the event, nothing
  happens. Otherwise the first watch of the list that has it is called, with the mask,
  the cookie and the name of the event, and no other watcher is called, whatever
  descriptors the later watches have.
\<close>

theorem event_goes_to_first_match:
  "((\<forall>w \<in> set ws. \<not> wd_matches s event w) \<longrightarrow> dispatch E s ws event = Some s)
   \<and> ((\<forall>x \<in> set pre. \<not> wd_matches s event x) \<and> fw_heap s w = Some W
        \<and> fw_wd W = event_wd event
      \<longrightarrow> dispatch E s (pre @ w # post) event = call_watcher E s w W event
          \<and> (\<forall>s'. dispatch E s (pre @ w # post) event = Some s'
                \<longrightarrow> watcher_calls s' = watcher_calls s @
                      [Call_watcher (fw_watcher W) (fw_data W) w (event_mask event)
                         (event_cookie event) (event_name event)]))
   \<and> (dispatch E s ws event = Some s'
      \<longrightarrow> length (watcher_calls s') \<le> Suc (length (watcher_calls s)))"
proof (intro conjI impI allI)
  assume "\<forall>w \<in> set ws. \<not> wd_matches s event w"
  then show "dispatch E s ws event = Some s" by (rule dispatch_no_match)
next
  assume a: "(\<forall>x \<in> set pre. \<not> wd_matches s event x) \<and> fw_heap s w = Some W
        \<and> fw_wd W = event_wd event"
  then show d: "dispatch E s (pre @ w # post) event = call_watcher E s w W event"
    using dispatch_first by blast
  fix s'
  assume "dispatch E s (pre @ w # post) event = Some s'"
  with d have "call_watcher E s w W event = Some s'" by simp
  then show "watcher_calls s' = watcher_calls s @
                      [Call_watcher (fw_watcher W) (fw_data W) w (event_mask event)
                         (event_cookie event) (event_name event)]"
    by (rule call_watcher_calls)
next
  assume run: "dispatch E s ws event = Some s'"
  show "length (watcher_calls s') \<le> Suc (length (watcher_calls s))"
  proof (cases "\<exists>w \<in> set ws. wd_matches s event w")
    case False
    with run dispatch_no_match [of ws s event E] show ?thesis by simp
  next
    case True
    then obtain pre w post where ws: "ws = pre @ w # post"
      and w: "wd_matches s event w" and pre: "\<forall>x \<in> set pre. \<not> wd_matches s event x"
      using split_list_first_prop [of ws "wd_matches s event"] by blast
    from w obtain W where W: "fw_heap s w = Some W" "fw_wd W = event_wd event"
      by (auto simp add: wd_matches_def split: option.splits)
    from run ws dispatch_first [OF pre W] have "call_watcher E s w W event = Some s'"
      by simp
    from call_watcher_calls [OF this] show ?thesis by simp
  qed
qed

lemma wd_found_iff:
  "wd_found s fw wd \<longleftrightarrow>
     (\<exists>x \<in> set (file_watches s). x \<noteq> fw \<and> (\<exists>X. fw_heap s x = Some X \<and> fw_wd X = wd))"
proof -
  have "fold (\<lambda>x found. if x \<noteq> fw \<and> (case fw_heap s x of None \<Rightarrow> False | Some X \<Rightarrow> fw_wd X = wd)
                          then True else found) xs b
        \<longleftrightarrow> b \<or> (\<exists>x \<in> set xs. x \<noteq> fw \<and> (\<exists>X. fw_heap s x = Some X \<and> fw_wd X = wd))" for xs b
    by (induction xs arbitrary: b) (auto split: option.splits)
  then show ?thesis by (simp add: wd_found_def)
qed

lemma wd_found_emit [simp]: "wd_found (emit a s) fw wd = wd_found s fw wd"
  by (simp add: wd_found_def)

text \<open>
  C2. An invalidated or moved-self event for a watch of a directory watch that is not
  its root (the paths differ) looks through the whole list for another watch with the
  same descriptor. When there is one, the watch of the event leaves the list and the
  heap and the kernel is not asked to remove anything; when there is none, the kernel
  is asked to remove the descriptor, and the watch leaves the list and the heap. No
  handler is called either way, and the other entries of the list stay in their order.
\<close>

theorem subdirectory_watch_release:
  assumes "dw_heap s dw = Some D" and "fw_heap s fw = Some F"
    and "events AND IN_IGNORED \<noteq> 0 \<or> events AND IN_MOVE_SELF \<noteq> 0"
    and "fw_path F \<noteq> dw_path D" and "0 \<le> fw_wd F"
  shows "\<exists>s'. nih_dir_watcher E s dw fw events cookie name = Some s'
     \<and> trace s' = trace s @ [Log_debug (fw_path F)] @
         (if \<exists>x \<in> set (file_watches s). x \<noteq> fw \<and> (\<exists>X. fw_heap s x = Some X \<and> fw_wd X = fw_wd F)
          then [] else [Sys_inotify_rm_watch (inotify_fd s) (fw_wd F)])
     \<and> file_watches s' = removeAll fw (file_watches s)
     \<and> fw_heap s' = (fw_heap s)(fw := None)
     \<and> calls s' = calls s"
proof -
  have ev: "events \<noteq> 0" using assms(3) by auto
  let ?s1 = "emit (Log_debug (fw_path F)) s"
  show ?thesis
  proof (cases "wd_found ?s1 fw (fw_wd F)")
    case True
    then have ex: "\<exists>x \<in> set (file_watches s). x \<noteq> fw \<and> (\<exists>X. fw_heap s x = Some X \<and> fw_wd X = fw_wd F)"
      by (simp add: wd_found_iff)
    have run: "nih_dir_watcher E s dw fw events cookie name
                 = Some (nih_list_free (nih_alloc_set_destructor ?s1 fw False) fw)"
      using assms ev True by (simp add: nih_dir_watcher_def Let_def)
    show ?thesis
      unfolding run using assms(2) ex
      by (simp add: nih_list_free_def free_fw_list free_fw_trace releases_def)
  next
    case False
    then have ex: "\<not> (\<exists>x \<in> set (file_watches s). x \<noteq> fw \<and> (\<exists>X. fw_heap s x = Some X \<and> fw_wd X = fw_wd F))"
      by (simp add: wd_found_iff)
    have run: "nih_dir_watcher E s dw fw events cookie name
                 = Some (nih_free_fw (nih_file_remove_watch ?s1 fw) fw)"
      using assms ev False by (simp add: nih_dir_watcher_def Let_def)
    have live: "live_wd ?s1 fw" using assms(2,5) by (simp add: live_wd_def)
    show ?thesis
      unfolding run using assms(2) ex live
      by (simp add: free_fw_list free_fw_trace releases_def remove_watch_list remove_watch_trace
            remove_watch_heap)
  qed
qed

subsection \<open>The end of a directory watch\<close>

lemma frees_simps [simp]:
  "frees [] s = s" "frees (c # cs) s = frees cs (nih_free_fw s c)"
  by (simp_all add: frees_def)

lemma releases_other: "c' \<noteq> c \<Longrightarrow> releases (nih_free_fw s c) c' = releases s c'"
  by (simp add: releases_def)

lemma releases_emit [simp]: "releases (emit a s) c = releases s c"
  by (simp add: releases_def)

lemma frees_heap: "fw_heap (frees cs s) = (\<lambda>a. if a \<in> set cs then None else fw_heap s a)"
  by (induction cs arbitrary: s) (auto simp add: fun_eq_iff)

lemma frees_fd [simp]: "inotify_fd (frees cs s) = inotify_fd s"
  by (induction cs arbitrary: s) simp_all

lemma free_fw_list_registered:
  assumes "c \<in> set (file_watches s) \<longrightarrow> releases s c"
  shows "file_watches (nih_free_fw s c) = removeAll c (file_watches s)"
  using assms by (auto simp add: free_fw_list)

lemma frees_list:
  "\<forall>c \<in> set cs. c \<in> set (file_watches s) \<longrightarrow> releases s c
   \<Longrightarrow> file_watches (frees cs s) = filter (\<lambda>a. a \<notin> set cs) (file_watches s)"
proof (induction cs arbitrary: s)
  case Nil
  then show ?case by simp
next
  case (Cons c cs)
  let ?s1 = "nih_free_fw s c"
  have l1: "file_watches ?s1 = removeAll c (file_watches s)"
    using Cons.prems by (simp add: free_fw_list_registered)
  have "\<forall>c' \<in> set cs. c' \<in> set (file_watches ?s1) \<longrightarrow> releases ?s1 c'"
    using Cons.prems l1 by (auto simp add: releases_other)
  from Cons.IH [OF this] l1 show ?case
    by (simp add: removeAll_filter_not_eq conj_commute eq_commute)
qed

lemma frees_trace:
  "\<exists>rms. trace (frees cs s) = trace s @ rms \<and> (\<forall>a \<in> set rms. \<exists>fd wd. a = Sys_inotify_rm_watch fd wd)"
proof (induction cs arbitrary: s)
  case Nil
  then show ?case by simp
next
  case (Cons c cs)
  from Cons.IH [of "nih_free_fw s c"] obtain rms where
    r: "trace (frees cs (nih_free_fw s c)) = trace (nih_free_fw s c) @ rms"
      "\<forall>a \<in> set rms. \<exists>fd wd. a = Sys_inotify_rm_watch fd wd"
    by blast
  show ?case
  proof (cases "releases s c")
    case True
    let ?r = "Sys_inotify_rm_watch (inotify_fd s) (fw_wd (the (fw_heap s c)))"
    have "trace (frees (c # cs) s) = trace s @ (?r # rms)"
      using r(1) True by (simp add: free_fw_trace)
    moreover have "\<forall>a \<in> set (?r # rms). \<exists>fd wd. a = Sys_inotify_rm_watch fd wd"
      using r(2) by simp
    ultimately show ?thesis by blast
  next
    case False
    with r show ?thesis by (auto simp add: free_fw_trace)
  qed
qed

lemma frees_removes:
  "c \<in> set cs \<Longrightarrow> fw_heap s c = Some C \<Longrightarrow> fw_destructor C \<Longrightarrow> 0 \<le> fw_wd C
   \<Longrightarrow> Sys_inotify_rm_watch (inotify_fd s) (fw_wd C) \<in> set (trace (frees cs s))"
proof (induction cs arbitrary: s)
  case Nil
  then show ?case by simp
next
  case (Cons c0 cs)
  show ?case
  proof (cases "c = c0")
    case True
    have "releases s c0" using True Cons.prems by (simp add: releases_def)
    then have "Sys_inotify_rm_watch (inotify_fd s) (fw_wd C) \<in> set (trace (nih_free_fw s c0))"
      using True Cons.prems by (simp add: free_fw_trace)
    with frees_trace [of cs "nih_free_fw s c0"] show ?thesis by auto
  next
    case False
    with Cons.prems have "c \<in> set cs" "fw_heap (nih_free_fw s c0) c = Some C" by simp_all
    from Cons.IH [OF this Cons.prems(3,4)] show ?thesis by simp
  qed
qed

lemma free_dw_frees:
  "dw_heap s d = Some D \<Longrightarrow> nih_free_dw s d = (frees (dw_children D) s)\<lparr>dw_heap := (dw_heap (frees (dw_children D) s))(d := None)\<rparr>"
  by (simp add: nih_free_dw_def frees_def Let_def)

text \<open>
  C3. An invalidated or moved-self event for the watch on the root of a directory
  watch (the paths are equal) calls the delete handler once, with no path, when there
  is a delete handler, and calls nothing else; after that call every watch that the
  directory watch owns is freed: it leaves the heap and the list, the kernel is asked
  to remove the descriptor of each one that was registered, and the directory watch
  itself is freed. The watches of others stay in the list in their order. The owned
  watches are those that \<^verbatim>\<open>nih_file_add_watch\<close> made for it: each one that is in the
  list is allocated with its destructor set and a valid descriptor.
\<close>

theorem root_watch_gone_frees_tree:
  assumes "dw_heap s dw = Some D" and "fw_heap s fw = Some F"
    and "events AND IN_IGNORED \<noteq> 0 \<or> events AND IN_MOVE_SELF \<noteq> 0"
    and "fw_path F = dw_path D"
    and "\<forall>c \<in> set (dw_children D). c \<in> set (file_watches s) \<longrightarrow> releases s c"
  shows "\<exists>s'. nih_dir_watcher E s dw fw events cookie name = Some s'
     \<and> calls s' = calls s @
         (case dw_delete_handler D of None \<Rightarrow> []
          | Some h \<Rightarrow> [Call_delete_handler h (dw_data D) dw None])
     \<and> (\<exists>rms. trace s' = trace s @ [Log_debug (fw_path F)] @
              (case dw_delete_handler D of None \<Rightarrow> []
               | Some h \<Rightarrow> [Call_delete_handler h (dw_data D) dw None]) @ rms
           \<and> (\<forall>a \<in> set rms. \<exists>fd wd. a = Sys_inotify_rm_watch fd wd))
     \<and> dw_heap s' dw = None
     \<and> (\<forall>c \<in> set (dw_children D). fw_heap s' c = None \<and> c \<notin> set (file_watches s'))
     \<and> file_watches s' = filter (\<lambda>a. a \<notin> set (dw_children D)) (file_watches s)
     \<and> (\<forall>c \<in> set (dw_children D). \<forall>C. fw_heap s c = Some C \<and> fw_destructor C \<and> 0 \<le> fw_wd C
           \<longrightarrow> Sys_inotify_rm_watch (inotify_fd s) (fw_wd C) \<in> set (trace s'))"
proof -
  have ev: "events \<noteq> 0" using assms(3) by auto
  let ?hc = "case dw_delete_handler D of None \<Rightarrow> []
             | Some h \<Rightarrow> [Call_delete_handler h (dw_data D) dw None]"
  let ?s1 = "emit (Log_debug (fw_path F)) s"
  define s2 where "s2 = (case dw_delete_handler D of None \<Rightarrow> ?s1
             | Some h \<Rightarrow> emit (Call_delete_handler h (dw_data D) dw None) ?s1)"
  define s3 where "s3 = frees (dw_children D) s2"
  define s' where "s' = s3\<lparr>dw_heap := (dw_heap s3)(dw := None)\<rparr>"
  have s2: "trace s2 = trace s @ [Log_debug (fw_path F)] @ ?hc"
    "file_watches s2 = file_watches s" "fw_heap s2 = fw_heap s" "dw_heap s2 = dw_heap s"
    "inotify_fd s2 = inotify_fd s" "calls s2 = calls s @ ?hc"
    "\<And>c. releases s2 c = releases s c"
    unfolding s2_def by (cases "dw_delete_handler D"; simp)+
  have fd: "nih_free_dw s2 dw = s'"
    using s2(4) assms(1) by (simp add: free_dw_frees s'_def s3_def)
  have run: "nih_dir_watcher E s dw fw events cookie name = Some s'"
    using assms(1-3) assms(4) [symmetric] ev fd
    by (simp add: nih_dir_watcher_def Let_def s2_def)
  have H: "\<forall>c \<in> set (dw_children D). c \<in> set (file_watches s2) \<longrightarrow> releases s2 c"
    using assms(5) s2 by simp
  have l: "file_watches s' = filter (\<lambda>a. a \<notin> set (dw_children D)) (file_watches s)"
    using frees_list [OF H] s2(2) by (simp add: s'_def s3_def)
  have h: "fw_heap s' a = (if a \<in> set (dw_children D) then None else fw_heap s a)" for a
    using s2(3) by (simp add: frees_heap s'_def s3_def)
  from frees_trace [of "dw_children D" s2] obtain rms where
    t: "trace s3 = trace s2 @ rms" "\<forall>a \<in> set rms. \<exists>fd wd. a = Sys_inotify_rm_watch fd wd"
    unfolding s3_def by blast
  have c: "calls s' = calls s @ ?hc"
    using s2(6) by (simp add: frees_def s'_def s3_def)
  have rm: "Sys_inotify_rm_watch (inotify_fd s) (fw_wd C) \<in> set (trace s')"
    if "c \<in> set (dw_children D)" "fw_heap s c = Some C" "fw_destructor C" "0 \<le> fw_wd C" for c C
    using frees_removes [of c "dw_children D" s2 C] that s2(3,5) by (simp add: s'_def s3_def)
  have tr: "\<exists>rms. trace s' = trace s @ [Log_debug (fw_path F)] @ ?hc @ rms
           \<and> (\<forall>a \<in> set rms. \<exists>fd wd. a = Sys_inotify_rm_watch fd wd)"
    using t s2(1) by (auto simp add: s'_def)
  have d: "dw_heap s' dw = None" by (simp add: s'_def)
  have k: "\<forall>c \<in> set (dw_children D). fw_heap s' c = None \<and> c \<notin> set (file_watches s')"
    using h l by simp
  from run c tr d k l rm show ?thesis by blast
qed

subsection \<open>A pass of the reader\<close>

lemma event_len_take: "16 \<le> n \<Longrightarrow> event_len (take n b) = event_len b"
  by (simp add: event_len_def le32_def drop_take min_def)

lemma sz_no_wrap:
  "(sizeof_inotify_event + unat (w :: 32 word)) mod 2 ^ 64 = sizeof_inotify_event + unat w"
proof -
  have "unat w < 2 ^ LENGTH(32)" by (rule unsigned_less)
  then show ?thesis by (simp add: sizeof_inotify_event_def)
qed

lemma sz_no_wrap_numeral:
  "(sizeof_inotify_event + unat (w :: 32 word)) mod 18446744073709551616
     = sizeof_inotify_event + unat w"
  using sz_no_wrap [of w] by simp

lemma call_watcher_buf:
  assumes "call_watcher E s w W event = Some s'"
  shows "recv_buf s' = recv_buf s"
proof (cases "fw_watcher W")
  case (User_watcher n)
  with assms show ?thesis by (auto simp add: call_watcher_def Let_def)
next
  case Nih_dir_watcher
  let ?a = "Call_watcher (fw_watcher W) (fw_data W) w (event_mask event) (event_cookie event)
              (event_name event)"
  from assms Nih_dir_watcher have
    run: "nih_dir_watcher E (emit ?a s) (fw_data W) w (event_mask event) (event_cookie event)
            (event_name event) = Some s'"
    by (simp add: call_watcher_def Let_def)
  then obtain D F where D: "dw_heap (emit ?a s) (fw_data W) = Some D"
    and F: "fw_heap (emit ?a s) w = Some F"
    by (auto simp add: nih_dir_watcher_def split: option.splits)
  from dir_watcher_calls(2) [OF run D F] show ?thesis by simp
qed

lemma dispatch_buf: "dispatch E s ws event = Some s' \<Longrightarrow> recv_buf s' = recv_buf s"
  by (induction ws) (auto simp add: call_watcher_buf split: option.splits if_splits)

lemma parse_exists:
  "\<exists>recs rest. b = concat recs @ rest \<and> (\<forall>r \<in> set recs. record_complete r) \<and> no_event_in rest"
proof (induction "length b" arbitrary: b rule: less_induct)
  case less
  show ?case
  proof (cases "no_event_in b")
    case True
    then have "b = concat [] @ b \<and> (\<forall>r \<in> set []. record_complete r) \<and> no_event_in b" by simp
    then show ?thesis by (intro exI)
  next
    case False
    let ?sz = "sizeof_inotify_event + unat (event_len b)"
    from False have sz: "?sz \<le> length b" "16 \<le> ?sz"
      by (simp_all add: no_event_in_def sizeof_inotify_event_def)
    have c: "record_complete (take ?sz b)"
      using sz by (simp add: record_complete_def event_len_take min_def)
    have "length (drop ?sz b) < length b" using sz by simp
    from less [OF this] obtain recs rest where
      d: "drop ?sz b = concat recs @ rest" "\<forall>r \<in> set recs. record_complete r" "no_event_in rest"
      by blast
    have "b = take ?sz b @ (concat recs @ rest)"
      by (simp add: d(1) [symmetric])
    then have "b = concat (take ?sz b # recs) @ rest"
      by simp
    moreover have "\<forall>r \<in> set (take ?sz b # recs). record_complete r" using c d(2) by simp
    ultimately have "b = concat (take ?sz b # recs) @ rest
        \<and> (\<forall>r \<in> set (take ?sz b # recs). record_complete r) \<and> no_event_in rest"
      using d(3) by (intro conjI)
    then show ?thesis by (intro exI)
  qed
qed

lemma reader_loop_stop:
  assumes "len = length (recv_buf s)" and "no_event_in (recv_buf s)"
  shows "reader_loop E s len = Some s"
proof -
  have "reader_loop E s len =
     (if 0 < len then
        (if len < sizeof_inotify_event then Some s
         else
           (let sz = (sizeof_inotify_event + unat (event_len (recv_buf s))) mod 2 ^ 64 in
            if len < sz then Some s
            else
              (case nih_io_read s sz of
                 (s1, event, sz') \<Rightarrow>
                   Option.bind (dispatch E s1 (file_watches s1) event)
                     (\<lambda>s2. reader_loop E s2 (len - sz')))))
      else Some s)"
    by (rule reader_loop.simps)
  also have "\<dots> = Some s"
    using assms unfolding Let_def sz_no_wrap no_event_in_def
    by (cases "len < sizeof_inotify_event") simp_all
  finally show ?thesis .
qed

lemma reader_loop_step:
  assumes "len = length (recv_buf s)" and "\<not> no_event_in (recv_buf s)"
    and "sz = sizeof_inotify_event + unat (event_len (recv_buf s))"
    and "r = take sz (recv_buf s)" and "s1 = s\<lparr>recv_buf := drop sz (recv_buf s)\<rparr>"
  shows "reader_loop E s len
           = Option.bind (dispatch E s1 (file_watches s1) r) (\<lambda>s2. reader_loop E s2 (len - sz))"
    and "sz \<le> len" and "0 < sz" and "length r = sz" and "record_complete r"
    and "recv_buf s = r @ recv_buf s1"
proof -
  from assms(2) have nb: "\<not> length (recv_buf s) < sizeof_inotify_event"
    "\<not> length (recv_buf s) < sz"
    by (simp_all add: no_event_in_def assms(3))
  show le: "sz \<le> len" using nb(2) assms(1) by simp
  show pos: "0 < sz" by (simp add: assms(3) sizeof_inotify_event_def)
  have s16: "16 \<le> sz" by (simp add: assms(3) sizeof_inotify_event_def)
  show lr: "length r = sz" using le assms(1) by (simp add: assms(4))
  have "event_len r = event_len (recv_buf s)"
    unfolding assms(4) using s16 by (rule event_len_take)
  then show "record_complete r" using lr by (simp add: record_complete_def assms(3))
  show "recv_buf s = r @ recv_buf s1" by (simp add: assms(4,5))
  have io: "nih_io_read s sz = (s1, r, sz)"
    using le assms(1) by (simp add: nih_io_read_def Let_def min_def assms(4,5))
  have szm: "(sizeof_inotify_event + unat (event_len (recv_buf s))) mod 2 ^ 64 = sz"
    by (simp only: sz_no_wrap assms(3))
  have "0 < len" using le pos by linarith
  moreover have "\<not> len < sizeof_inotify_event" using nb(1) assms(1) by simp
  moreover have "\<not> len < sz" using le by simp
  ultimately have l0: "0 < len" "\<not> len < sizeof_inotify_event" "\<not> len < sz"
    by blast+
  have "reader_loop E s len =
     (if 0 < len then
        (if len < sizeof_inotify_event then Some s
         else
           (let sz = (sizeof_inotify_event + unat (event_len (recv_buf s))) mod 2 ^ 64 in
            if len < sz then Some s
            else
              (case nih_io_read s sz of
                 (s1, event, sz') \<Rightarrow>
                   Option.bind (dispatch E s1 (file_watches s1) event)
                     (\<lambda>s2. reader_loop E s2 (len - sz')))))
      else Some s)"
    by (rule reader_loop.simps)
  also have "\<dots> = Option.bind (dispatch E s1 (file_watches s1) r) (\<lambda>s2. reader_loop E s2 (len - sz))"
    unfolding Let_def szm io using l0 by simp
  finally show "reader_loop E s len
           = Option.bind (dispatch E s1 (file_watches s1) r) (\<lambda>s2. reader_loop E s2 (len - sz))" .
qed

lemma run_events_step:
  assumes "length r = sz" and "s1 = s\<lparr>recv_buf := drop sz (recv_buf s)\<rparr>"
  shows "run_events E s (r # recs)
           = Option.bind (dispatch E s1 (file_watches s1) r) (\<lambda>s2. run_events E s2 recs)"
  unfolding run_events.simps Let_def assms ..

lemma reader_loop_runs:
  assumes "len = length (recv_buf s)"
  shows "\<exists>recs rest. recv_buf s = concat recs @ rest
           \<and> (\<forall>r \<in> set recs. record_complete r) \<and> no_event_in rest
           \<and> reader_loop E s len = run_events E s recs
           \<and> (\<forall>s'. reader_loop E s len = Some s' \<longrightarrow> recv_buf s' = rest)"
  using assms
proof (induction len arbitrary: s rule: less_induct)
  case (less len)
  show ?case
  proof (cases "no_event_in (recv_buf s)")
    case True
    have "reader_loop E s len = Some s"
      using less.prems True by (rule reader_loop_stop)
    with True have "recv_buf s = concat [] @ recv_buf s \<and> (\<forall>r \<in> set []. record_complete r)
        \<and> no_event_in (recv_buf s) \<and> reader_loop E s len = run_events E s []
        \<and> (\<forall>s'. reader_loop E s len = Some s' \<longrightarrow> recv_buf s' = recv_buf s)"
      by simp
    then show ?thesis by (intro exI)
  next
    case False
    define sz where "sz = sizeof_inotify_event + unat (event_len (recv_buf s))"
    define r where "r = take sz (recv_buf s)"
    define s1 where "s1 = s\<lparr>recv_buf := drop sz (recv_buf s)\<rparr>"
    note st = reader_loop_step [OF less.prems False sz_def r_def s1_def]
    note rs = run_events_step [OF st(4) s1_def]
    have b1: "recv_buf s1 = drop sz (recv_buf s)" by (simp add: s1_def)
    show ?thesis
    proof (cases "dispatch E s1 (file_watches s1) r")
      case None
      from parse_exists [of "recv_buf s1"] obtain recs rest where
        d: "recv_buf s1 = concat recs @ rest" "\<forall>r \<in> set recs. record_complete r"
          "no_event_in rest"
        by blast
      have 1: "recv_buf s = concat (r # recs) @ rest"
        using st(6) d(1) by simp
      have 2: "\<forall>x \<in> set (r # recs). record_complete x" using st(5) d(2) by simp
      have 3: "reader_loop E s len = run_events E s (r # recs)"
        unfolding st(1) rs None by simp
      have 4: "\<forall>s'. reader_loop E s len = Some s' \<longrightarrow> recv_buf s' = rest"
        unfolding st(1) None by simp
      from 1 2 d(3) 3 4 have "recv_buf s = concat (r # recs) @ rest
           \<and> (\<forall>x \<in> set (r # recs). record_complete x) \<and> no_event_in rest
           \<and> reader_loop E s len = run_events E s (r # recs)
           \<and> (\<forall>s'. reader_loop E s len = Some s' \<longrightarrow> recv_buf s' = rest)"
        by (intro conjI)
      then show ?thesis by (intro exI)
    next
      case (Some s2)
      have b2: "recv_buf s2 = recv_buf s1" using Some by (rule dispatch_buf)
      have lt: "len - sz < len" using st(2,3) by simp
      have eq: "len - sz = length (recv_buf s2)"
        using b2 b1 less.prems by simp
      from less.IH [OF lt eq] obtain recs rest where
        d: "recv_buf s2 = concat recs @ rest" "\<forall>r \<in> set recs. record_complete r"
          "no_event_in rest"
          "reader_loop E s2 (len - sz) = run_events E s2 recs"
          "\<forall>s'. reader_loop E s2 (len - sz) = Some s' \<longrightarrow> recv_buf s' = rest"
        by blast
      have 1: "recv_buf s = concat (r # recs) @ rest"
        using st(6) d(1) b2 by simp
      have 2: "\<forall>x \<in> set (r # recs). record_complete x" using st(5) d(2) by simp
      have 3: "reader_loop E s len = run_events E s (r # recs)"
        unfolding st(1) rs Some using d(4) by simp
      have 4: "\<forall>s'. reader_loop E s len = Some s' \<longrightarrow> recv_buf s' = rest"
        unfolding st(1) Some using d(5) by simp
      from 1 2 d(3) 3 4 have "recv_buf s = concat (r # recs) @ rest
           \<and> (\<forall>x \<in> set (r # recs). record_complete x) \<and> no_event_in rest
           \<and> reader_loop E s len = run_events E s (r # recs)
           \<and> (\<forall>s'. reader_loop E s len = Some s' \<longrightarrow> recv_buf s' = rest)"
        by (intro conjI)
      then show ?thesis by (intro exI)
    qed
  qed
qed

lemma dispatch_users:
  assumes "users_only s"
  shows "\<exists>s'. dispatch E s ws r = Some s' \<and> fw_heap s' = fw_heap s"
proof (induction ws)
  case Nil
  then show ?case by simp
next
  case (Cons w ws)
  show ?case
  proof (cases "fw_heap s w")
    case None
    with Cons show ?thesis by simp
  next
    case (Some W)
    with assms obtain n where "fw_watcher W = User_watcher n"
      by (cases "fw_watcher W") (auto simp add: users_only_def)
    with Some Cons show ?thesis
      by (auto simp add: call_watcher_def Let_def)
  qed
qed

lemma run_events_users:
  "users_only s \<Longrightarrow> \<exists>s'. run_events E s recs = Some s'"
proof (induction recs arbitrary: s)
  case Nil
  then show ?case by simp
next
  case (Cons r recs)
  let ?s1 = "s\<lparr>recv_buf := drop (length r) (recv_buf s)\<rparr>"
  have u1: "users_only ?s1" using Cons.prems by (simp add: users_only_def)
  from dispatch_users [OF u1, of E "file_watches ?s1" r] obtain s2 where
    d: "dispatch E ?s1 (file_watches ?s1) r = Some s2" "fw_heap s2 = fw_heap ?s1"
    by blast
  have "users_only s2" using u1 d(2) by (simp add: users_only_def)
  from Cons.IH [OF this] d(1) show ?case by (simp add: Let_def)
qed

text \<open>
  C5. A pass of \<^verbatim>\<open>nih_file_reader\<close> over the receive buffer takes complete records
  off its front: the buffer is a run of records, each a header of sixteen bytes with
  exactly the bytes of name that it declares, followed by a rest that holds no event
  (it is shorter than a header, or than its header with the declared name). The pass
  is the dispatch of these records one after the other, each with what follows it still
  buffered; when it returns, the rest is what is left in the buffer. The pass returns
  whenever no watcher aborts: it does so in a registry of watchers of the caller.
\<close>

theorem reader_takes_complete_records:
  assumes "len = length (recv_buf s)" and "0 < len"
  shows "\<exists>recs rest. recv_buf s = concat recs @ rest
           \<and> (\<forall>r \<in> set recs. record_complete r) \<and> no_event_in rest
           \<and> nih_file_reader E s len = run_events E s recs
           \<and> (\<forall>s'. nih_file_reader E s len = Some s' \<longrightarrow> recv_buf s' = rest)
           \<and> (users_only s \<longrightarrow> (\<exists>s'. nih_file_reader E s len = Some s'))"
proof -
  from reader_loop_runs [OF assms(1), of E] obtain recs rest where
    d: "recv_buf s = concat recs @ rest" "\<forall>r \<in> set recs. record_complete r" "no_event_in rest"
      "reader_loop E s len = run_events E s recs"
      "\<forall>s'. reader_loop E s len = Some s' \<longrightarrow> recv_buf s' = rest"
    by blast
  have r: "nih_file_reader E s len = reader_loop E s len"
    using assms(2) by (simp add: nih_file_reader_def)
  have "users_only s \<longrightarrow> (\<exists>s'. nih_file_reader E s len = Some s')"
    using run_events_users [of s E recs] d(4) r by simp
  with d r have "recv_buf s = concat recs @ rest
           \<and> (\<forall>r \<in> set recs. record_complete r) \<and> no_event_in rest
           \<and> nih_file_reader E s len = run_events E s recs
           \<and> (\<forall>s'. nih_file_reader E s len = Some s' \<longrightarrow> recv_buf s' = rest)
           \<and> (users_only s \<longrightarrow> (\<exists>s'. nih_file_reader E s len = Some s'))"
    by simp
  then show ?thesis by (intro exI)
qed

subsection \<open>The properties in the small world\<close>

lemmas demo_state_defs = demo_tree_def demo_moved_def demo_fw_def demo_dw_def demo_ftree_def
  demo_reading_def

lemma suc_numerals:
  "Suc (Suc 0) = 2" "Suc 2 = 3" "Suc 3 = 4" "Suc 4 = 5" "Suc 5 = 6"
  by simp_all

lemma demo_tree_reached:
  "nih_dir_add_watch demo_env init_state ''/r'' True None (Some 1) (Some 2) (Some 3) 7
     = Some (demo_tree, Some 0)"
  by (simp add: run_defs demo_defs demo_state_defs S_ISDIR_def S_IFMT_def S_IFDIR_def
        DIR_EVENTS_nonzero suc_numerals)

lemma demo_moved_reached:
  "nih_dir_watcher demo_env demo_tree 0 1 IN_MOVED_TO 9 (Some ''e'') = Some demo_moved"
  by (simp add: nih_dir_watcher_def run_defs demo_defs demo_state_defs S_ISDIR_def S_IFMT_def
        S_IFDIR_def DIR_EVENTS_nonzero IN_MOVED_TO_def IN_IGNORED_def IN_MOVE_SELF_def IN_CREATE_def
        suc_numerals)

lemma demo_event_fields:
  "event_wd demo_event = 2" "event_mask demo_event = IN_MODIFY" "event_cookie demo_event = 0"
  "event_len demo_event = 4" "event_name demo_event = Some ''f''"
  by (simp_all add: event_wd_def event_mask_def event_cookie_def event_name_def event_len_def
        le32_def demo_event_def IN_MODIFY_def)

lemma demo_ftree_reached:
  "nih_dir_add_watch demo_env init_state ''/r'' True (Some demo_filter) (Some 1) (Some 2) (Some 3) 7
     = Some (demo_ftree, Some 0)"
  by (simp add: run_defs demo_defs demo_state_defs S_ISDIR_def S_IFMT_def S_IFDIR_def
        DIR_EVENTS_nonzero suc_numerals demo_filter_def)

theorem root_watch_gone_frees_tree_witness:
  "\<exists>s'. nih_dir_watcher demo_env demo_moved 0 1 IN_IGNORED 0 None = Some s'
      \<and> calls s' = [Call_create_handler 1 7 0 ''/r/e'', Call_delete_handler 3 7 0 None]
      \<and> file_watches s' = [] \<and> dw_heap s' 0 = None
      \<and> fw_heap s' 1 = None \<and> fw_heap s' 5 = None
      \<and> Sys_inotify_rm_watch 3 2 \<in> set (trace s')"
proof -
  have 1: "dw_heap demo_moved 0 = Some (demo_dw [1, 2, 3, 4, 5])"
    and 2: "fw_heap demo_moved 1 = Some (demo_fw 1 ''/r'')"
    and 3: "IN_IGNORED AND IN_IGNORED \<noteq> 0 \<or> IN_IGNORED AND IN_MOVE_SELF \<noteq> 0"
    and 4: "fw_path (demo_fw 1 ''/r'') = dw_path (demo_dw [1, 2, 3, 4, 5])"
    and 5: "\<forall>c \<in> set (dw_children (demo_dw [1, 2, 3, 4, 5])).
              c \<in> set (file_watches demo_moved) \<longrightarrow> releases demo_moved c"
    by (simp_all add: demo_state_defs IN_IGNORED_def releases_def)
  have 6: "fw_heap demo_moved 2 = Some (demo_fw 2 ''/r/d'')" "fw_destructor (demo_fw 2 ''/r/d'')"
    "fw_wd (demo_fw 2 ''/r/d'') = 2" "inotify_fd demo_moved = 3"
    "calls demo_moved = [Call_create_handler 1 7 0 ''/r/e'']"
    "file_watches demo_moved = [1, 2, 3, 4, 5]"
    "dw_children (demo_dw [1, 2, 3, 4, 5]) = [1, 2, 3, 4, 5]"
    "dw_delete_handler (demo_dw [1, 2, 3, 4, 5]) = Some 3" "dw_data (demo_dw [1, 2, 3, 4, 5]) = 7"
    by (simp_all add: demo_state_defs calls_def)
  from root_watch_gone_frees_tree [OF 1 2 3 4 5, of demo_env 0 None]
  show ?thesis
    using 6 by (auto simp add: 6)
qed

theorem subdirectory_watch_release_witness:
  "(\<exists>s'. nih_dir_watcher demo_env demo_moved 0 2 IN_MOVE_SELF 0 None = Some s'
      \<and> trace s' = trace demo_moved @ [Log_debug ''/r/d'']
      \<and> file_watches s' = [1, 3, 4, 5] \<and> fw_heap s' 2 = None
      \<and> fw_heap s' 4 = Some (demo_fw 2 ''/r/e''))
   \<and> (\<exists>s'. nih_dir_watcher demo_env demo_tree 0 2 IN_IGNORED 0 None = Some s'
      \<and> trace s' = trace demo_tree @ [Log_debug ''/r/d'', Sys_inotify_rm_watch 3 2]
      \<and> file_watches s' = [1, 3] \<and> fw_heap s' 2 = None)"
proof -
  let ?F = "demo_fw 2 ''/r/d''"
  have m: "dw_heap demo_moved 0 = Some (demo_dw [1, 2, 3, 4, 5])"
    "fw_heap demo_moved 2 = Some ?F"
    "IN_MOVE_SELF AND IN_IGNORED \<noteq> 0 \<or> IN_MOVE_SELF AND IN_MOVE_SELF \<noteq> 0"
    "fw_path ?F \<noteq> dw_path (demo_dw [1, 2, 3, 4, 5])"
    "0 \<le> fw_wd ?F"
    by (simp_all add: demo_state_defs IN_MOVE_SELF_def)
  have t: "dw_heap demo_tree 0 = Some (demo_dw [1, 2, 3])"
    "fw_heap demo_tree 2 = Some ?F"
    "IN_IGNORED AND IN_IGNORED \<noteq> 0 \<or> IN_IGNORED AND IN_MOVE_SELF \<noteq> 0"
    "fw_path ?F \<noteq> dw_path (demo_dw [1, 2, 3])"
    by (simp_all add: demo_state_defs IN_IGNORED_def)
  have dup: "(\<exists>x \<in> set (file_watches demo_moved). x \<noteq> 2
                \<and> (\<exists>X. fw_heap demo_moved x = Some X \<and> fw_wd X = fw_wd ?F)) = True"
    by (simp add: demo_state_defs)
  have nodup: "(\<exists>x \<in> set (file_watches demo_tree). x \<noteq> 2
                \<and> (\<exists>X. fw_heap demo_tree x = Some X \<and> fw_wd X = fw_wd ?F)) = False"
    by (simp add: demo_state_defs)
  have e: "removeAll 2 (file_watches demo_moved) = [1, 3, 4, 5]"
    "removeAll 2 (file_watches demo_tree) = [1, 3]"
    "fw_heap demo_moved 4 = Some (demo_fw 2 ''/r/e'')" "fw_path ?F = ''/r/d''"
    "fw_wd ?F = 2" "inotify_fd demo_tree = 3"
    by (simp_all add: demo_state_defs)
  from subdirectory_watch_release [OF m, of demo_env 0 None]
  obtain s1 where 1: "nih_dir_watcher demo_env demo_moved 0 2 IN_MOVE_SELF 0 None = Some s1"
    "trace s1 = trace demo_moved @ [Log_debug (fw_path ?F)] @ []"
    "file_watches s1 = removeAll 2 (file_watches demo_moved)"
    "fw_heap s1 = (fw_heap demo_moved)(2 := None)"
    unfolding dup if_True by blast
  from subdirectory_watch_release [OF t m(5), of demo_env 0 None]
  obtain s2 where 2: "nih_dir_watcher demo_env demo_tree 0 2 IN_IGNORED 0 None = Some s2"
    "trace s2 = trace demo_tree @ [Log_debug (fw_path ?F)]
        @ [Sys_inotify_rm_watch (inotify_fd demo_tree) (fw_wd ?F)]"
    "file_watches s2 = removeAll 2 (file_watches demo_tree)"
    "fw_heap s2 = (fw_heap demo_tree)(2 := None)"
    unfolding nodup if_False by blast
  have "nih_dir_watcher demo_env demo_moved 0 2 IN_MOVE_SELF 0 None = Some s1
      \<and> trace s1 = trace demo_moved @ [Log_debug ''/r/d'']
      \<and> file_watches s1 = [1, 3, 4, 5] \<and> fw_heap s1 2 = None
      \<and> fw_heap s1 4 = Some (demo_fw 2 ''/r/e'')"
    using 1 by (simp add: e)
  moreover have "nih_dir_watcher demo_env demo_tree 0 2 IN_IGNORED 0 None = Some s2
      \<and> trace s2 = trace demo_tree @ [Log_debug ''/r/d'', Sys_inotify_rm_watch 3 2]
      \<and> file_watches s2 = [1, 3] \<and> fw_heap s2 2 = None"
    using 2 by (simp add: e)
  ultimately show ?thesis by blast
qed

theorem event_goes_to_first_match_witness:
  "file_watches demo_moved = [1] @ 2 # [3, 4, 5]
   \<and> \<not> wd_matches demo_moved demo_event 1
   \<and> wd_matches demo_moved demo_event 2 \<and> wd_matches demo_moved demo_event 4
   \<and> (\<exists>s'. dispatch demo_env demo_moved (file_watches demo_moved) demo_event = Some s'
        \<and> watcher_calls s' = [Call_watcher Nih_dir_watcher 0 2 IN_MODIFY 0 (Some ''f'')]
        \<and> calls s' = [Call_create_handler 1 7 0 ''/r/e'',
                      Call_watcher Nih_dir_watcher 0 2 IN_MODIFY 0 (Some ''f''),
                      Call_modify_handler 2 7 0 ''/r/d/f''])"
proof -
  have l: "file_watches demo_moved = [1] @ 2 # [3, 4, 5]" by (simp add: demo_state_defs)
  have w: "\<not> wd_matches demo_moved demo_event 1" "wd_matches demo_moved demo_event 2"
    "wd_matches demo_moved demo_event 4"
    by (simp_all add: wd_matches_def demo_event_fields demo_state_defs)
  have h: "(\<forall>x \<in> set [1]. \<not> wd_matches demo_moved demo_event x)
      \<and> fw_heap demo_moved 2 = Some (demo_fw 2 ''/r/d'')
      \<and> fw_wd (demo_fw 2 ''/r/d'') = event_wd demo_event"
    using w(1) by (simp add: demo_event_fields demo_state_defs)
  have r: "\<exists>s'. call_watcher demo_env demo_moved 2 (demo_fw 2 ''/r/d'') demo_event = Some s'
      \<and> calls s' = [Call_create_handler 1 7 0 ''/r/e'',
                      Call_watcher Nih_dir_watcher 0 2 IN_MODIFY 0 (Some ''f''),
                      Call_modify_handler 2 7 0 ''/r/d/f'']"
    by (simp add: call_watcher_def nih_dir_watcher_def demo_event_fields demo_state_defs
          calls_def path_join_def filtered_def Let_def IN_MODIFY_def IN_IGNORED_def
          IN_MOVE_SELF_def IN_CREATE_def IN_MOVED_TO_def)
  have wc: "watcher_calls demo_moved = []"
    "fw_watcher (demo_fw 2 ''/r/d'') = Nih_dir_watcher" "fw_data (demo_fw 2 ''/r/d'') = 0"
    by (simp_all add: watcher_calls_def demo_state_defs)
  from event_goes_to_first_match [of "[]" demo_moved demo_event demo_env "[1]" 2
      "demo_fw 2 ''/r/d''" "[3, 4, 5]"] h r l w
  show ?thesis
    by (auto simp add: wc demo_event_fields)
qed


theorem subdirectory_watch_failure_is_warning_witness:
  "(\<exists>s'. nih_dir_add_file_watch demo_env 0 demo_tree ''/r/zz'' = Some (s', 0)
      \<and> trace s' = trace demo_tree @ [Sys_inotify_add_watch 3 ''/r/zz'' DIR_EVENTS, Log_warn ''/r/zz'']
      \<and> file_watches s' = file_watches demo_tree \<and> raised s' = None
      \<and> undisturbed demo_tree s' \<and> last (since demo_tree s') = Log_warn ''/r/zz'')
   \<and> opens_all demo_r
   \<and> (\<exists>s'. nih_dir_walk (nih_dir_add_file_watch demo_env_denied 0) demo_ftree ''/r'' demo_r
              S_IFDIR None = Some (s', 0)
         \<and> undisturbed demo_ftree s' \<and> calls s' = [] \<and> raised s' = None
         \<and> Log_warn ''/r/d'' \<in> set (since demo_ftree s'))
   \<and> (\<exists>s'. nih_dir_add_watch demo_env_denied init_state ''/r'' True None None None None 0
              = Some (s', Some 0)
         \<and> undisturbed init_state s' \<and> calls s' = [] \<and> raised s' = None
         \<and> fw_heap s' 1 = Some (demo_fw 1 ''/r'') \<and> 1 \<in> set (file_watches s')
         \<and> Log_warn ''/r/d'' \<in> set (since init_state s')
         \<and> trace s' = [Sys_inotify_init, Io_reopen 3, Sys_inotify_add_watch 3 ''/r'' DIR_EVENTS,
               Sys_inotify_add_watch 3 ''/r/d'' DIR_EVENTS, Log_warn ''/r/d'',
               Sys_inotify_add_watch 3 ''/r/d/x'' DIR_EVENTS, Log_warn ''/r/d/x''])
   \<and> (\<exists>s'. nih_dir_watcher demo_env_denied demo_tree 0 1 IN_MOVED_TO 9 (Some ''e'') = Some s'
         \<and> calls s' = [Call_create_handler 1 7 0 ''/r/e'']
         \<and> undisturbed demo_tree s' \<and> raised s' = None
         \<and> Log_warn ''/r/e'' \<in> set (since demo_tree s')
         \<and> Log_warn ''/r/e/x'' \<in> set (since demo_tree s'))"
proof -
  have a0: "\<exists>s'. nih_dir_add_file_watch demo_env 0 demo_tree ''/r/zz'' = Some (s', 0)
      \<and> trace s' = trace demo_tree @ [Sys_inotify_add_watch 3 ''/r/zz'' DIR_EVENTS, Log_warn ''/r/zz'']
      \<and> file_watches s' = file_watches demo_tree \<and> raised s' = None"
    by (simp add: run_defs demo_defs demo_state_defs DIR_EVENTS_nonzero)
  have rz: "refused demo_env ''/r/zz''"
    by (simp add: refused_def demo_env_def)
  note c1 = subdirectory_watch_failure_is_warning [where E = demo_env and s = demo_tree
      and path = "''/r/zz''" and m = S_IFDIR and d = 1 and subdirs = True and filt = None
      and ch = None and mh = None and dh = None and data = 0 and node = demo_r
      and dw = 0 and D = "demo_dw [1, 2, 3]" and fw = 1 and F = "demo_fw 1 ''/r''"
      and events = IN_MOVED_TO and cookie = 9 and n = "''e''" and watch = 0,
      THEN conjunct1]
  then obtain s1 where all1:
    "nih_dir_add_file_watch demo_env 0 demo_tree ''/r/zz'' = Some (s1, 0)
     \<and> undisturbed demo_tree s1 \<and> calls s1 = calls demo_tree
     \<and> (raised demo_tree = None \<longrightarrow> raised s1 = None)
     \<and> (\<forall>sa. nih_file_add_watch demo_env demo_tree (Some 0) ''/r/zz'' DIR_EVENTS Nih_dir_watcher 0
                 = Some (sa, None)
            \<longrightarrow> s1 = emit (Log_warn ''/r/zz'') (sa\<lparr>raised := None\<rparr>)
                \<and> file_watches s1 = file_watches demo_tree)
     \<and> (refused demo_env ''/r/zz''
          \<longrightarrow> since demo_tree s1 \<noteq> [] \<and> last (since demo_tree s1) = Log_warn ''/r/zz'')" ..
  note r1 = all1 [THEN conjunct1]
    and u1 = all1 [THEN conjunct2, THEN conjunct1]
    and w1 = all1 [THEN conjunct2, THEN conjunct2, THEN conjunct2, THEN conjunct2, THEN conjunct2,
               THEN mp, OF rz, THEN conjunct2]
  from a0 r1 u1 w1
  have a: "\<exists>s'. nih_dir_add_file_watch demo_env 0 demo_tree ''/r/zz'' = Some (s', 0)
      \<and> trace s' = trace demo_tree @ [Sys_inotify_add_watch 3 ''/r/zz'' DIR_EVENTS, Log_warn ''/r/zz'']
      \<and> file_watches s' = file_watches demo_tree \<and> raised s' = None
      \<and> undisturbed demo_tree s' \<and> last (since demo_tree s') = Log_warn ''/r/zz''"
    by (intro exI [of _ s1]) auto
  have o: "opens_all demo_r" and od: "opens_all demo_d"
    by (simp_all add: demo_defs S_ISDIR_def S_IFMT_def S_IFDIR_def)
  have fs: "sys_fs demo_env_denied ''/r'' = demo_r" "sys_fs demo_env_denied ''/r/e'' = demo_d"
    by (simp_all add: demo_env_denied_def demo_env_def)
  have wr: "Log_warn ''/r/d'' \<in> set (since s s')"
    if "warned demo_env_denied None ''/r'' demo_r s s'" for s s'
    using that
    by (simp add: warned_def demo_r_def demo_d_def refused_dir_def refused_def filtered_def
          path_join_def demo_env_denied_def demo_env_def S_ISDIR_def S_IFMT_def S_IFDIR_def)
  have we: "Log_warn ''/r/e/x'' \<in> set (since s s')"
    if "warned demo_env_denied None ''/r/e'' demo_d s s'" for s s'
    using that
    by (simp add: warned_def demo_d_def demo_x_def refused_dir_def refused_def filtered_def
          path_join_def demo_env_denied_def demo_env_def S_ISDIR_def S_IFMT_def S_IFDIR_def)
  have c: "st_mode (sys_fs demo_env_denied ''/r'') = Inr S_IFDIR \<and> S_ISDIR S_IFDIR
      \<and> opens_all (sys_fs demo_env_denied ''/r'')
      \<and> sys_alloc demo_env_denied (allocs init_state)
      \<and> sys_alloc demo_env_denied (Suc (allocs init_state)) \<and> fd_ready demo_env_denied init_state
      \<and> sys_inotify_add_watch demo_env_denied ''/r'' DIR_EVENTS = Inr 1 \<and> (0::int) \<le> 1"
    using o by (simp add: demo_env_denied_def demo_env_def init_state_def fd_ready_def demo_r_def
        S_ISDIR_def S_IFMT_def S_IFDIR_def)
  have d: "dw_heap demo_tree 0 = Some (demo_dw [1, 2, 3])
      \<and> fw_heap demo_tree 1 = Some (demo_fw 1 ''/r'') \<and> IN_MOVED_TO \<noteq> 0"
    by (simp add: demo_state_defs IN_MOVED_TO_def)
  have e: "IN_MOVED_TO AND IN_IGNORED = 0 \<and> IN_MOVED_TO AND IN_MOVE_SELF = 0"
    by (simp add: IN_MOVED_TO_def IN_IGNORED_def IN_MOVE_SELF_def)
  have pj: "path_join (fw_path (demo_fw 1 ''/r'')) ''e'' = ''/r/e''"
    by (simp add: path_join_def demo_fw_def)
  have di: "discovers demo_env_denied (demo_dw [1, 2, 3]) (demo_fw 1 ''/r'') IN_MOVED_TO ''e''"
    using e pj fs
    by (simp add: discovers_def demo_dw_def filtered_def demo_d_def
          IN_MOVED_TO_def S_ISDIR_def S_IFMT_def S_IFDIR_def)
  have rf: "refused demo_env_denied ''/r/e''"
    by (simp add: refused_def demo_env_denied_def)
  have hc: "handler_calls (demo_dw [1, 2, 3]) 0 (demo_fw 1 ''/r'') IN_MOVED_TO (Some ''e'')
      = [Call_create_handler 1 7 0 ''/r/e'']"
    using e pj
    by (simp add: handler_calls_def handler_call_def filtered_def demo_dw_def IN_MOVED_TO_def)
  have t: "\<exists>s'. nih_dir_add_watch demo_env_denied init_state ''/r'' True None None None None 0
              = Some (s', Some 0)
         \<and> trace s' = [Sys_inotify_init, Io_reopen 3, Sys_inotify_add_watch 3 ''/r'' DIR_EVENTS,
               Sys_inotify_add_watch 3 ''/r/d'' DIR_EVENTS, Log_warn ''/r/d'',
               Sys_inotify_add_watch 3 ''/r/d/x'' DIR_EVENTS, Log_warn ''/r/d/x'']"
    by (simp add: run_defs demo_defs const_defs demo_env_denied_def EACCES_def releases_def)
  have ct: "calls demo_tree = []" "raised demo_tree = None"
    and cf: "calls demo_ftree = []" "raised demo_ftree = None"
    and ci: "calls init_state = []" "raised init_state = None" "allocs init_state = 0"
    by (simp_all add: demo_tree_def demo_ftree_def init_state_def calls_def)
  note c3 = subdirectory_watch_failure_is_warning [where E = demo_env_denied and s = init_state
      and path = "''/r''" and m = S_IFDIR and d = 1 and subdirs = True and filt = None
      and ch = None and mh = None and dh = None and data = 0 and node = demo_r
      and dw = 0 and D = "demo_dw [1, 2, 3]" and fw = 1 and F = "demo_fw 1 ''/r''"
      and events = IN_MOVED_TO and cookie = 9 and n = "''e''" and watch = 0,
      THEN conjunct2, THEN conjunct2, THEN conjunct1, THEN mp, OF c]
  then obtain s3 where all3:
    "nih_dir_add_watch demo_env_denied init_state ''/r'' True None None None None 0
           = Some (s3, Some (allocs init_state))
     \<and> undisturbed init_state s3 \<and> calls s3 = calls init_state
     \<and> (raised init_state = None \<longrightarrow> raised s3 = None)
     \<and> fw_heap s3 (Suc (allocs init_state)) =
                   Some \<lparr>fw_wd = 1, fw_path = ''/r'', fw_events = DIR_EVENTS,
                         fw_watcher = Nih_dir_watcher, fw_data = allocs init_state,
                         fw_parent = Some (allocs init_state), fw_destructor = True\<rparr>
     \<and> Suc (allocs init_state) \<in> set (file_watches s3)
     \<and> dw_kept (Suc (Suc (allocs init_state)))
                   \<lparr>dw_path = ''/r'', dw_subdirs = True, dw_filter = None,
                    dw_create_handler = None, dw_modify_handler = None, dw_delete_handler = None,
                    dw_data = 0, dw_children = [Suc (allocs init_state)]\<rparr>
                   (dw_heap s3 (allocs init_state))
     \<and> (True \<longrightarrow> warned demo_env_denied None ''/r'' (sys_fs demo_env_denied ''/r'') init_state s3)" ..
  note r3 = all3 [THEN conjunct1]
    and u3 = all3 [THEN conjunct2, THEN conjunct1]
    and l3 = all3 [THEN conjunct2, THEN conjunct2, THEN conjunct1]
    and a3 = all3 [THEN conjunct2, THEN conjunct2, THEN conjunct2, THEN conjunct1]
    and h3 = all3 [THEN conjunct2, THEN conjunct2, THEN conjunct2, THEN conjunct2, THEN conjunct1]
    and m3 = all3 [THEN conjunct2, THEN conjunct2, THEN conjunct2, THEN conjunct2, THEN conjunct2,
               THEN conjunct1]
    and w3 = all3 [THEN conjunct2, THEN conjunct2, THEN conjunct2, THEN conjunct2, THEN conjunct2,
               THEN conjunct2, THEN conjunct2]
  from t r3 ci(3) have t3: "trace s3 = [Sys_inotify_init, Io_reopen 3, Sys_inotify_add_watch 3 ''/r'' DIR_EVENTS,
               Sys_inotify_add_watch 3 ''/r/d'' DIR_EVENTS, Log_warn ''/r/d'',
               Sys_inotify_add_watch 3 ''/r/d/x'' DIR_EVENTS, Log_warn ''/r/d/x'']"
    by auto
  from w3 fs(1) have "Log_warn ''/r/d'' \<in> set (since init_state s3)" by (simp add: wr)
  with r3 u3 l3 a3 h3 m3 t3 ci
  have cons: "\<exists>s'. nih_dir_add_watch demo_env_denied init_state ''/r'' True None None None None 0
              = Some (s', Some 0)
         \<and> undisturbed init_state s' \<and> calls s' = [] \<and> raised s' = None
         \<and> fw_heap s' 1 = Some (demo_fw 1 ''/r'') \<and> 1 \<in> set (file_watches s')
         \<and> Log_warn ''/r/d'' \<in> set (since init_state s')
         \<and> trace s' = [Sys_inotify_init, Io_reopen 3, Sys_inotify_add_watch 3 ''/r'' DIR_EVENTS,
               Sys_inotify_add_watch 3 ''/r/d'' DIR_EVENTS, Log_warn ''/r/d'',
               Sys_inotify_add_watch 3 ''/r/d/x'' DIR_EVENTS, Log_warn ''/r/d/x'']"
    by (intro exI [of _ s3]) (simp add: demo_fw_def)
  note c4 = subdirectory_watch_failure_is_warning [where E = demo_env_denied and s = demo_tree
      and path = "''/r''" and m = S_IFDIR and d = 1 and subdirs = True and filt = None
      and ch = None and mh = None and dh = None and data = 0 and node = demo_r
      and dw = 0 and D = "demo_dw [1, 2, 3]" and fw = 1 and F = "demo_fw 1 ''/r''"
      and events = IN_MOVED_TO and cookie = 9 and n = "''e''" and watch = 0,
      THEN conjunct2, THEN conjunct2, THEN conjunct2, THEN mp, OF d]
  then obtain s4 where all4:
    "nih_dir_watcher demo_env_denied demo_tree 0 1 IN_MOVED_TO 9 (Some ''e'') = Some s4
     \<and> calls s4 = calls demo_tree
               @ handler_calls (demo_dw [1, 2, 3]) 0 (demo_fw 1 ''/r'') IN_MOVED_TO (Some ''e'')
     \<and> (IN_MOVED_TO AND IN_IGNORED = 0 \<and> IN_MOVED_TO AND IN_MOVE_SELF = 0
        \<longrightarrow> undisturbed demo_tree s4 \<and> (raised demo_tree = None \<longrightarrow> raised s4 = None)
          \<and> (discovers demo_env_denied (demo_dw [1, 2, 3]) (demo_fw 1 ''/r'') IN_MOVED_TO ''e''
                \<and> refused demo_env_denied (path_join (fw_path (demo_fw 1 ''/r'')) ''e'')
              \<longrightarrow> Log_warn (path_join (fw_path (demo_fw 1 ''/r'')) ''e'') \<in> set (since demo_tree s4))
          \<and> (discovers demo_env_denied (demo_dw [1, 2, 3]) (demo_fw 1 ''/r'') IN_MOVED_TO ''e''
                \<and> opens_all (sys_fs demo_env_denied (path_join (fw_path (demo_fw 1 ''/r'')) ''e''))
              \<longrightarrow> warned demo_env_denied (dw_filter (demo_dw [1, 2, 3]))
                    (path_join (fw_path (demo_fw 1 ''/r'')) ''e'')
                    (sys_fs demo_env_denied (path_join (fw_path (demo_fw 1 ''/r'')) ''e''))
                    demo_tree s4))" ..
  note r4 = all4 [THEN conjunct1]
    and l4 = all4 [THEN conjunct2, THEN conjunct1]
    and i4 = all4 [THEN conjunct2, THEN conjunct2, THEN mp, OF e, unfolded pj]
  have nf: "dw_filter (demo_dw [1, 2, 3]) = None" by (simp add: demo_dw_def)
  have u4: "undisturbed demo_tree s4" using i4 by (rule conjunct1)
  have a4: "raised s4 = None"
    using i4 [THEN conjunct2, THEN conjunct1] ct(2) by simp
  have w4: "Log_warn ''/r/e'' \<in> set (since demo_tree s4)"
    using i4 [THEN conjunct2, THEN conjunct2, THEN conjunct1] di rf by simp
  have x4: "warned demo_env_denied None ''/r/e'' demo_d demo_tree s4"
    using i4 [THEN conjunct2, THEN conjunct2, THEN conjunct2] di od fs(2) nf by simp
  from r4 l4 u4 a4 w4 we [OF x4] hc ct
  have tr: "\<exists>s'. nih_dir_watcher demo_env_denied demo_tree 0 1 IN_MOVED_TO 9 (Some ''e'') = Some s'
         \<and> calls s' = [Call_create_handler 1 7 0 ''/r/e'']
         \<and> undisturbed demo_tree s' \<and> raised s' = None
         \<and> Log_warn ''/r/e'' \<in> set (since demo_tree s')
         \<and> Log_warn ''/r/e/x'' \<in> set (since demo_tree s')"
    by (intro exI [of _ s4]) simp
  note c2 = subdirectory_watch_failure_is_warning [where E = demo_env_denied and s = demo_ftree
      and path = "''/r''" and m = S_IFDIR and d = 1 and subdirs = True and filt = None
      and ch = None and mh = None and dh = None and data = 0 and node = demo_r
      and dw = 0 and D = "demo_dw [1, 2, 3]" and fw = 1 and F = "demo_fw 1 ''/r''"
      and events = IN_MOVED_TO and cookie = 9 and n = "''e''" and watch = 0,
      THEN conjunct2, THEN conjunct1, THEN mp, OF o]
  then obtain s2 where all2:
    "nih_dir_walk (nih_dir_add_file_watch demo_env_denied 0) demo_ftree ''/r'' demo_r
              S_IFDIR None = Some (s2, 0)
     \<and> undisturbed demo_ftree s2 \<and> calls s2 = calls demo_ftree
     \<and> (raised demo_ftree = None \<longrightarrow> raised s2 = None)
     \<and> warned demo_env_denied None ''/r'' demo_r demo_ftree s2" ..
  note r2 = all2 [THEN conjunct1]
    and u2 = all2 [THEN conjunct2, THEN conjunct1]
    and l2 = all2 [THEN conjunct2, THEN conjunct2, THEN conjunct1]
    and a2 = all2 [THEN conjunct2, THEN conjunct2, THEN conjunct2, THEN conjunct1]
    and w2 = all2 [THEN conjunct2, THEN conjunct2, THEN conjunct2, THEN conjunct2]
  from r2 u2 l2 a2 wr [OF w2] cf
  have wk: "\<exists>s'. nih_dir_walk (nih_dir_add_file_watch demo_env_denied 0) demo_ftree ''/r'' demo_r
              S_IFDIR None = Some (s', 0)
         \<and> undisturbed demo_ftree s' \<and> calls s' = [] \<and> raised s' = None
         \<and> Log_warn ''/r/d'' \<in> set (since demo_ftree s')"
    by (intro exI [of _ s2]) simp
  from a o wk cons tr show ?thesis by (intro conjI)
qed

theorem reader_takes_complete_records_witness:
  "23 = length (recv_buf demo_reading)
   \<and> (\<exists>recs rest. recv_buf demo_reading = concat recs @ rest
         \<and> list_all record_complete recs \<and> no_event_in rest
         \<and> nih_file_reader demo_env demo_reading 23 = run_events demo_env demo_reading recs)
   \<and> (\<exists>s'. nih_file_reader demo_env demo_reading 23 = Some s'
         \<and> recv_buf s' = [CHR 0x02, CHR 0x00, CHR 0x00]
         \<and> calls s' = [Call_create_handler 1 7 0 ''/r/e'',
                       Call_watcher Nih_dir_watcher 0 2 IN_MODIFY 0 (Some ''f''),
                       Call_modify_handler 2 7 0 ''/r/d/f''])"
proof -
  have l: "23 = length (recv_buf demo_reading)" "(0::nat) < 23"
    by (simp_all add: demo_reading_def demo_event_def)
  have t: "take 20 (recv_buf demo_reading) = demo_event"
    "drop 20 (recv_buf demo_reading) = [CHR 0x02, CHR 0x00, CHR 0x00]"
    by (simp_all add: demo_reading_def demo_event_def)
  have ev: "\<not> no_event_in (recv_buf demo_reading)"
    "20 = sizeof_inotify_event + unat (event_len (recv_buf demo_reading))"
    by (simp_all add: no_event_in_def sizeof_inotify_event_def event_len_def le32_def
          demo_reading_def demo_event_def)
  have len: "length demo_event = 20" by (simp add: demo_event_def)
  let ?s1 = "demo_reading\<lparr>recv_buf := drop 20 (recv_buf demo_reading)\<rparr>"
  note st = reader_loop_step [OF l(1) ev refl refl]
  have d: "\<exists>s2. dispatch demo_env ?s1 (file_watches ?s1) demo_event = Some s2
      \<and> recv_buf s2 = [CHR 0x02, CHR 0x00, CHR 0x00]
      \<and> calls s2 = [Call_create_handler 1 7 0 ''/r/e'',
                       Call_watcher Nih_dir_watcher 0 2 IN_MODIFY 0 (Some ''f''),
                       Call_modify_handler 2 7 0 ''/r/d/f'']"
    by (simp add: len call_watcher_def nih_dir_watcher_def demo_event_fields demo_state_defs
          calls_def path_join_def filtered_def Let_def IN_MODIFY_def IN_IGNORED_def
          IN_MOVE_SELF_def IN_CREATE_def IN_MOVED_TO_def)
  then obtain s2 where s2: "dispatch demo_env ?s1 (file_watches ?s1) demo_event = Some s2"
    "recv_buf s2 = [CHR 0x02, CHR 0x00, CHR 0x00]"
    "calls s2 = [Call_create_handler 1 7 0 ''/r/e'',
                       Call_watcher Nih_dir_watcher 0 2 IN_MODIFY 0 (Some ''f''),
                       Call_modify_handler 2 7 0 ''/r/d/f'']"
    by blast
  have "reader_loop demo_env s2 (23 - 20) = Some s2"
    by (rule reader_loop_stop) (simp_all add: s2(2) no_event_in_def sizeof_inotify_event_def)
  then have "reader_loop demo_env demo_reading 23 = Some s2"
    using st(1) s2(1) by (simp add: t(1))
  then have r: "nih_file_reader demo_env demo_reading 23 = Some s2"
    by (simp add: nih_file_reader_def)
  from reader_takes_complete_records [OF l, of demo_env] l(1) r s2
  show ?thesis
    by (auto simp add: list_all_iff)
qed

subsection \<open>The memory map helper\<close>

text \<open>
  C9. \<^verbatim>\<open>nih_file_map\<close> returns \<^verbatim>\<open>NULL\<close> exactly when \<^verbatim>\<open>open\<close>, \<^verbatim>\<open>fstat\<close> or
  \<^verbatim>\<open>mmap\<close> fails, and then a system error is raised (with the error number of the
  failed call); whenever \<^verbatim>\<open>open\<close> has succeeded, on success and on both failures, the
  last thing the function does is to close the descriptor, once.
\<close>

theorem nih_file_map_fails_and_closes:
  assumes "flags AND O_ACCMODE = O_RDONLY \<or> flags AND O_ACCMODE = O_RDWR"
  shows "\<exists>s' r len'. nih_file_map E s path flags len0 = Some (s', r, len')
     \<and> (r = None \<longleftrightarrow>
          sys_ret (sys_open E path flags) < 0
          \<or> (\<exists>e. sys_fstat E (sys_ret (sys_open E path flags)) = Inl e)
          \<or> (\<exists>e n. sys_fstat E (sys_ret (sys_open E path flags)) = Inr n
                \<and> sys_mmap E (nat (n mod 2 ^ 64)) (map_prot flags)
                     (sys_ret (sys_open E path flags)) = Inl e))
     \<and> (r = None \<longrightarrow> raised s' = Some (errno s'))
     \<and> (0 \<le> sys_ret (sys_open E path flags) \<longrightarrow>
          (\<exists>acts. trace s' = trace s @ acts @ [Sys_close (sys_ret (sys_open E path flags))]
             \<and> (\<forall>fd. Sys_close fd \<notin> set acts)))"
  using assms
  by (auto simp add: nih_file_map_def Let_def map_error_def nih_error_raise_system_def
        sys_errno_def emit_def split: sum.splits)

theorem nih_file_map_fails_and_closes_witness:
  "\<exists>s'. nih_file_map demo_env init_state ''f'' O_RDONLY 99 = Some (s', None, 7)
     \<and> raised s' = Some ENOMEM
     \<and> trace s' = [Sys_open ''f'' O_RDONLY, Sys_fstat 5, Sys_mmap 7 PROT_READ MAP_SHARED 5,
                   Sys_close 5]"
proof -
  have h: "O_RDONLY AND O_ACCMODE = O_RDONLY \<or> O_RDONLY AND O_ACCMODE = O_RDWR"
    by (simp add: O_RDONLY_def)
  show ?thesis
    using nih_file_map_fails_and_closes [OF h, of demo_env init_state "''f''" 99]
    by (simp add: nih_file_map_def demo_env_def init_state_def O_RDONLY_def O_ACCMODE_def
          O_RDWR_def sys_ret_def sys_errno_def map_prot_def map_error_def emit_def
          nih_error_raise_system_def Let_def)
qed

text \<open>
  C10. \<^verbatim>\<open>nih_file_map\<close> stores the size of the file into \<^verbatim>\<open>*length\<close> before it
  calls \<^verbatim>\<open>mmap\<close> (which is given that length): when \<^verbatim>\<open>open\<close> and \<^verbatim>\<open>fstat\<close> succeed
  and \<^verbatim>\<open>mmap\<close> fails, the function returns \<^verbatim>\<open>NULL\<close> and the length of the caller
  holds the size of the file, whatever it held before.
\<close>

theorem nih_file_map_length_written:
  assumes "flags AND O_ACCMODE = O_RDONLY \<or> flags AND O_ACCMODE = O_RDWR"
    and "sys_open E path flags = Inr fd" and "0 \<le> fd"
    and "sys_fstat E fd = Inr st_size" and "0 \<le> st_size" and "st_size < 2 ^ 64"
    and "sys_mmap E (nat st_size) (map_prot flags) fd = Inl e"
  shows "\<exists>s'. nih_file_map E s path flags len0 = Some (s', None, nat st_size)
           \<and> trace s' = trace s @ [Sys_open path flags, Sys_fstat fd,
                 Sys_mmap (nat st_size) (map_prot flags) MAP_SHARED fd, Sys_close fd]"
  using assms
  by (simp add: nih_file_map_def Let_def map_error_def nih_error_raise_system_def sys_errno_def
        sys_ret_def emit_def)

theorem nih_file_map_length_written_witness:
  "\<exists>s'. nih_file_map demo_env init_state ''f'' O_RDONLY 99 = Some (s', None, 7)
     \<and> trace s' = [Sys_open ''f'' O_RDONLY, Sys_fstat 5, Sys_mmap 7 PROT_READ MAP_SHARED 5,
                   Sys_close 5]"
proof -
  have 1: "O_RDONLY AND O_ACCMODE = O_RDONLY \<or> O_RDONLY AND O_ACCMODE = O_RDWR"
    by (simp add: O_RDONLY_def)
  have 2: "sys_open demo_env ''f'' O_RDONLY = Inr 5" by (simp add: demo_env_def)
  have 3: "sys_fstat demo_env 5 = Inr 7" by (simp add: demo_env_def)
  have 4: "sys_mmap demo_env (nat 7) (map_prot O_RDONLY) 5 = Inl ENOMEM"
    by (simp add: demo_env_def)
  have 5: "map_prot O_RDONLY = PROT_READ"
    by (simp add: map_prot_def O_RDONLY_def O_RDWR_def)
  show ?thesis
    using nih_file_map_length_written [OF 1 2 _ 3 _ _ 4, of init_state 99]
    by (simp add: 5 init_state_def)
qed

subsection \<open>Releasing a watch\<close>

text \<open>
  C4. \<^verbatim>\<open>nih_file_remove_watch\<close> is idempotent and frees nothing: a second call on
  the same watch changes nothing; on a watch whose descriptor is negative the call
  changes nothing at all; on a watch whose descriptor is valid it asks the kernel to
  remove that descriptor, takes the watch out of the list (the other entries keep their
  order) and sets its descriptor to \<open>-1\<close>, and the structure stays allocated.
\<close>

theorem nih_file_remove_watch_idempotent:
  "nih_file_remove_watch (nih_file_remove_watch s w) w = nih_file_remove_watch s w
   \<and> (\<forall>F. fw_heap s w = Some F \<and> fw_wd F < 0 \<longrightarrow> nih_file_remove_watch s w = s)
   \<and> (\<forall>F. fw_heap s w = Some F \<and> 0 \<le> fw_wd F \<longrightarrow>
        trace (nih_file_remove_watch s w)
          = trace s @ [Sys_inotify_rm_watch (inotify_fd s) (fw_wd F)]
        \<and> file_watches (nih_file_remove_watch s w) = removeAll w (file_watches s)
        \<and> w \<notin> set (file_watches (nih_file_remove_watch s w))
        \<and> fw_heap (nih_file_remove_watch s w) = (fw_heap s)(w \<mapsto> F\<lparr>fw_wd := - 1\<rparr>)
        \<and> dom (fw_heap (nih_file_remove_watch s w)) = dom (fw_heap s)
        \<and> dw_heap (nih_file_remove_watch s w) = dw_heap s)"
  by (auto simp add: nih_file_remove_watch_def nih_list_remove_def emit_def Let_def
        split: option.splits)

theorem nih_file_remove_watch_idempotent_witness:
  "fw_heap demo_registry 0 = Some demo_watch \<and> 0 \<le> fw_wd demo_watch
   \<and> trace (nih_file_remove_watch demo_registry 0) = [Sys_inotify_rm_watch 3 1]
   \<and> file_watches (nih_file_remove_watch demo_registry 0) = []
   \<and> fw_heap (nih_file_remove_watch demo_registry 0) 0 = Some (demo_watch\<lparr>fw_wd := - 1\<rparr>)
   \<and> nih_file_remove_watch (nih_file_remove_watch demo_registry 0) 0
       = nih_file_remove_watch demo_registry 0"
proof -
  have h: "fw_heap demo_registry 0 = Some demo_watch \<and> 0 \<le> fw_wd demo_watch"
    by (simp add: demo_registry_def demo_watch_def init_state_def)
  have t: "trace demo_registry = []" "inotify_fd demo_registry = 3"
    "file_watches demo_registry = [0]" "fw_wd demo_watch = 1"
    by (simp_all add: demo_registry_def demo_watch_def init_state_def)
  from nih_file_remove_watch_idempotent [of demo_registry 0] h
  show ?thesis by (simp add: t)
qed

end
